theory Spec2Isabelle
  imports Complex_Main "HOL-Library.Word"
begin

section \<open>Data model\<close>

text \<open>
  The module \<^verbatim>\<open>src/index.ts\<close> is present in two copies.  Their helper functions and
  \<^verbatim>\<open>createId\<close> agree character by character (comments apart); they differ in the default
  salt and in the parameter list of \<^verbatim>\<open>verifyId\<close>.  The helpers are embedded once; the
  two \<^verbatim>\<open>verifyId\<close> entry points are embedded separately.

  A JavaScript string is modelled as a \<^typ>\<open>string\<close>: a list of code units, each below 256.
  A promise that rejects, or a \<^verbatim>\<open>throw\<close>, is the left injection of a sum.
\<close>

type_synonym byte = "8 word"

datatype error = Error string | TypeError | SyntaxError

definition SALT :: string where
  "SALT = ''legitid:''"

definition SALT_legid :: string where
  "SALT_legid = ''legid:''"

definition DEFAULT_ID_LENGTH :: int where
  "DEFAULT_ID_LENGTH = 10"

definition ALPHABET :: string where
  "ALPHABET = ''abcdefghijklmnopqrstuvwxyzABCDEFGHIJKLMNOPQRSTUVWXYZ0123456789''"

definition MAX_ID_LENGTH :: int where
  "MAX_ID_LENGTH = 54"

section \<open>Built-ins of the host language\<close>

text \<open>\<^verbatim>\<open>String.prototype.indexOf\<close> for a one-character needle: \<open>-1\<close> when absent.\<close>

primrec indexOf :: "string \<Rightarrow> char \<Rightarrow> int" where
  "indexOf [] c = - 1"
| "indexOf (x # xs) c =
     (if x = c then 0 else (let r = indexOf xs c in if r = - 1 then - 1 else r + 1))"

text \<open>The value of one hexadecimal digit, either case, as \<^verbatim>\<open>BigInt\<close> reads it.\<close>

definition hexDigitValue :: "char \<Rightarrow> nat option" where
  "hexDigitValue c =
     (let k = (of_char c :: nat) in
      if 48 \<le> k \<and> k \<le> 57 then Some (k - 48)
      else if 97 \<le> k \<and> k \<le> 102 then Some (k - 87)
      else if 65 \<le> k \<and> k \<le> 70 then Some (k - 55)
      else None)"

fun parseHexDigits :: "string \<Rightarrow> nat \<Rightarrow> nat option" where
  "parseHexDigits [] acc = Some acc"
| "parseHexDigits (c # cs) acc =
     (case hexDigitValue c of
        None \<Rightarrow> None
      | Some d \<Rightarrow> parseHexDigits cs (16 * acc + d))"

text \<open>White space and line terminators among the code units below 256.\<close>

definition isStrWhiteSpaceChar :: "char \<Rightarrow> bool" where
  "isStrWhiteSpaceChar c = ((of_char c :: nat) \<in> {9, 10, 11, 12, 13, 32, 160})"

text \<open>
  \<^verbatim>\<open>BigInt('0x' + hex)\<close>: the text after the prefix is a non-empty run of hexadecimal
  digits, optionally followed by white space; anything else is a \<^verbatim>\<open>SyntaxError\<close>.
\<close>

definition BigInt_0x :: "string \<Rightarrow> error + nat" where
  "BigInt_0x hex =
     (let digits = rev (dropWhile isStrWhiteSpaceChar (rev hex)) in
      if digits = [] then Inl SyntaxError
      else (case parseHexDigits digits 0 of
              None \<Rightarrow> Inl SyntaxError
            | Some v \<Rightarrow> Inr v))"

definition hexDigit :: "nat \<Rightarrow> char" where
  "hexDigit d = ''0123456789abcdef'' ! d"

text \<open>\<^verbatim>\<open>toString(16)\<close> of a non-negative integer: lowercase, no padding, \<open>0\<close> as "0".\<close>

function toString16 :: "nat \<Rightarrow> string" where
  "toString16 n = (if n < 16 then [hexDigit n] else toString16 (n div 16) @ [hexDigit (n mod 16)])"
  by pat_completeness auto
termination
  by (relation "measure id") auto

declare toString16.simps [simp del]

definition padStart :: "string \<Rightarrow> nat \<Rightarrow> char \<Rightarrow> string" where
  "padStart s n c = replicate (n - length s) c @ s"

definition startsWith :: "string \<Rightarrow> string \<Rightarrow> bool" where
  "startsWith s p = (take (length p) s = p)"

text \<open>
  Indexing a string: a position past the end reads \<^verbatim>\<open>undefined\<close>, and appending that to
  a string appends the nine characters of its name.
\<close>

definition stringIndex :: "string \<Rightarrow> nat \<Rightarrow> string" where
  "stringIndex s i = (if i < length s then [s ! i] else ''undefined'')"

section \<open>Base conversion codec\<close>

text \<open>The \<^verbatim>\<open>do ... while (decimal > 0n)\<close> loop of \<^verbatim>\<open>hexToCustomAlphabet\<close>.\<close>

function hexToCustomAlphabet_loop :: "nat \<Rightarrow> string \<Rightarrow> string" where
  "hexToCustomAlphabet_loop decimal result =
     (let base = length ALPHABET;
          remainder = decimal mod base;
          result' = ALPHABET ! remainder # result;
          decimal' = decimal div base
      in if decimal' > 0 then hexToCustomAlphabet_loop decimal' result' else result')"
  by pat_completeness auto
termination
  by (relation "measure fst") (auto simp: ALPHABET_def)

declare hexToCustomAlphabet_loop.simps [simp del]

definition hexToCustomAlphabet :: "string \<Rightarrow> error + string" where
  "hexToCustomAlphabet hex =
     (if hex = [] then Inr []
      else (case BigInt_0x hex of
              Inl e \<Rightarrow> Inl e
            | Inr decimal \<Rightarrow> Inr (hexToCustomAlphabet_loop decimal [])))"

text \<open>The \<^verbatim>\<open>for\<close> loop of \<^verbatim>\<open>customAlphabetToHex\<close>, over the characters still to read.\<close>

fun customAlphabetToHex_loop :: "string \<Rightarrow> nat \<Rightarrow> error + nat" where
  "customAlphabetToHex_loop [] decimal = Inr decimal"
| "customAlphabetToHex_loop (char # rest) decimal =
     (let index = indexOf ALPHABET char in
      if index = - 1 then Inl (Error (''Invalid character: '' @ [char]))
      else customAlphabetToHex_loop rest (decimal * length ALPHABET + nat index))"

definition customAlphabetToHex :: "string \<Rightarrow> error + string" where
  "customAlphabetToHex customStr =
     (if customStr = [] then Inr []
      else (case customAlphabetToHex_loop customStr 0 of
              Inl e \<Rightarrow> Inl e
            | Inr decimal \<Rightarrow> Inr (toString16 decimal)))"

section \<open>Length budget\<close>

text \<open>
  \<^verbatim>\<open>Math.floor(alphabetLength * HEX_TO_ALPHABET_RATIO)\<close> is computed in binary64
  arithmetic.  A double is modelled by the rational it denotes; \<open>toDouble\<close> rounds a
  rational to the nearest double with a 53-bit significand, ties to even (the exponent
  range is not modelled: the magnitudes that occur lie between 1 and 81).  The argument
  is an integer, which is a double exactly while its magnitude is at most \<open>2 ^ 53\<close>.
\<close>

fun log2floor :: "nat \<Rightarrow> nat" where
  "log2floor n = (if n < 2 then 0 else Suc (log2floor (n div 2)))"

declare log2floor.simps [simp del]

definition pow2 :: "int \<Rightarrow> rat" where
  "pow2 e = (if 0 \<le> e then 2 ^ nat e else 1 / 2 ^ nat (- e))"

text \<open>The exponent \<open>e\<close> with \<open>2 ^ e \<le> q < 2 ^ (e + 1)\<close>, for positive \<open>q\<close>.\<close>

definition binade :: "rat \<Rightarrow> int" where
  "binade q =
     (if 1 \<le> q then int (log2floor (nat \<lfloor>q\<rfloor>))
      else (let j = int (log2floor (nat \<lfloor>1 / q\<rfloor>)) in
            if q * pow2 j = 1 then - j else - j - 1))"

definition roundTiesToEven :: "rat \<Rightarrow> int" where
  "roundTiesToEven m =
     (let f = \<lfloor>m\<rfloor>; r = m - of_int f in
      if r < 1 / 2 then f
      else if 1 / 2 < r then f + 1
      else if even f then f else f + 1)"

definition toDouble :: "rat \<Rightarrow> rat" where
  "toDouble q =
     (if q = 0 then 0
      else (let a = \<bar>q\<bar>; u = pow2 (binade a - 52) in
            sgn q * of_int (roundTiesToEven (a / u)) * u))"

text \<open>The literal \<^verbatim>\<open>1.48855\<close>, read as a double.\<close>

definition HEX_TO_ALPHABET_RATIO :: rat where
  "HEX_TO_ALPHABET_RATIO = toDouble (148855 / 100000)"

definition calculateHexLength :: "int \<Rightarrow> int" where
  "calculateHexLength alphabetLength =
     \<lfloor>toDouble (of_int alphabetLength * HEX_TO_ALPHABET_RATIO)\<rfloor>"

section \<open>Entropy source\<close>

text \<open>
  The secure random source is an arbitrary infinite sequence of bytes \<open>rng\<close>, read from a
  position that each call advances: \<^verbatim>\<open>crypto.getRandomValues(array)\<close> overwrites the
  array with the next \<open>length array\<close> bytes.
\<close>

definition getRandomValues :: "(nat \<Rightarrow> byte) \<Rightarrow> nat \<Rightarrow> nat \<Rightarrow> byte list \<times> nat" where
  "getRandomValues rng pos n = (map rng [pos ..< pos + n], pos + n)"

text \<open>
  The loop \<^verbatim>\<open>while (array[0] < 16) crypto.getRandomValues(array)\<close>.  It need not end:
  \<open>None\<close> is the run that re-rolls for ever.  On an empty array \<^verbatim>\<open>array[0]\<close> is
  \<^verbatim>\<open>undefined\<close> and the comparison is false.
\<close>

partial_function (option) generateRandomHexToken_loop ::
  "(nat \<Rightarrow> byte) \<Rightarrow> nat \<Rightarrow> byte list \<Rightarrow> (byte list \<times> nat) option" where
  "generateRandomHexToken_loop rng pos array =
     (if array \<noteq> [] \<and> hd array < 16
      then (case getRandomValues rng pos (length array) of
              (array', pos') \<Rightarrow> generateRandomHexToken_loop rng pos' array')
      else Some (array, pos))"

declare generateRandomHexToken_loop.simps [code]

text \<open>
  \<^verbatim>\<open>Array.from(array, byte => byte.toString(16).padStart(2, '0')).join('')\<close>, shared by
  \<^verbatim>\<open>generateRandomHexToken\<close> and \<^verbatim>\<open>arrayBufferToHex\<close>.
\<close>

definition arrayBufferToHex :: "byte list \<Rightarrow> string" where
  "arrayBufferToHex byteArray = concat (map (\<lambda>byte. padStart (toString16 (unat byte)) 2 CHR ''0'') byteArray)"

definition generateRandomHexToken ::
  "(nat \<Rightarrow> byte) \<Rightarrow> nat \<Rightarrow> nat \<Rightarrow> (string \<times> nat) option" where
  "generateRandomHexToken rng pos len =
     (case getRandomValues rng pos ((len + 1) div 2) of
        (array0, pos0) \<Rightarrow>
          (case generateRandomHexToken_loop rng pos0 array0 of
             None \<Rightarrow> None
           | Some (array, pos') \<Rightarrow> Some (take len (arrayBufferToHex array), pos')))"

section \<open>Keyed digest\<close>

text \<open>
  \<open>digest text\<close> stands for the 20 bytes that
  \<^verbatim>\<open>crypto.subtle.digest('SHA-1', new TextEncoder().encode(text))\<close> resolves to.  It is a
  primitive of the platform, not code of this module, and is a parameter throughout.
\<close>

definition sha1 :: "(string \<Rightarrow> byte list) \<Rightarrow> string \<Rightarrow> string" where
  "sha1 digest text = arrayBufferToHex (digest text)"

section \<open>Interleaving and splitting\<close>

text \<open>
  The loop of \<^verbatim>\<open>createId\<close> that weaves token and hash; \<^verbatim>\<open>i >> 1\<close> and \<^verbatim>\<open>i % 2\<close> are
  taken on \<open>i < hexLength \<le> 80\<close>, where they are \<open>i div 2\<close> and \<open>i mod 2\<close>.
\<close>

function interleave_loop :: "string \<Rightarrow> string \<Rightarrow> nat \<Rightarrow> nat \<Rightarrow> string \<Rightarrow> string" where
  "interleave_loop hexToken hexHash hexLength i hexId =
     (if i < hexLength
      then interleave_loop hexToken hexHash hexLength (i + 1)
             (if i mod 2 \<noteq> 0 then hexId @ stringIndex hexHash (i div 2)
              else hexId @ stringIndex hexToken (i div 2))
      else hexId)"
  by pat_completeness auto
termination
  by (relation "measure (\<lambda>(t, h, n, i, acc). n - i)") auto

declare interleave_loop.simps [simp del]

definition interleave :: "string \<Rightarrow> string \<Rightarrow> nat \<Rightarrow> string" where
  "interleave hexToken hexHash hexLength = interleave_loop hexToken hexHash hexLength 0 []"

text \<open>The loop of \<^verbatim>\<open>verifyId\<close> that separates even and odd positions.\<close>

function split_loop :: "string \<Rightarrow> nat \<Rightarrow> string \<Rightarrow> string \<Rightarrow> string \<times> string" where
  "split_loop hexId i extractedHexToken extractedHexHash =
     (if i < length hexId
      then (if i mod 2 \<noteq> 0
            then split_loop hexId (i + 1) extractedHexToken (extractedHexHash @ [hexId ! i])
            else split_loop hexId (i + 1) (extractedHexToken @ [hexId ! i]) extractedHexHash)
      else (extractedHexToken, extractedHexHash))"
  by pat_completeness auto
termination
  by (relation "measure (\<lambda>(s, i, t, h). length s - i)") auto

declare split_loop.simps [simp del]

definition split_hexId :: "string \<Rightarrow> string \<times> string" where
  "split_hexId hexId = split_loop hexId 0 [] []"

section \<open>createId and verifyId\<close>

record create_options =
  opt_approximateLength :: "int option"
  opt_salt :: "string option"

record verify_options =
  vopt_salt :: "string option"

text \<open>The local variables of \<^verbatim>\<open>createId\<close> when its loop has run.\<close>

record createId_locals =
  hexLength_of :: int
  hexToken_of :: string
  hexHash_of :: string
  hexId_of :: string

text \<open>
  \<^verbatim>\<open>createId\<close> up to its last statement.  The outer \<open>option\<close> is \<open>None\<close> when the
  entropy loop never ends; \<open>Inl\<close> is the thrown error.  \<^verbatim>\<open>(hexLength + 1) >> 1\<close> is taken
  on \<open>1 \<le> hexLength \<le> 80\<close>, where it is \<open>(hexLength + 1) div 2\<close>.
\<close>

definition createId_run ::
  "(string \<Rightarrow> byte list) \<Rightarrow> (nat \<Rightarrow> byte) \<Rightarrow> nat \<Rightarrow> create_options \<Rightarrow> (error + createId_locals) option" where
  "createId_run digest rng pos opts =
     (let approximateLength = (case opt_approximateLength opts of None \<Rightarrow> DEFAULT_ID_LENGTH | Some n \<Rightarrow> n);
          salt = (case opt_salt opts of None \<Rightarrow> SALT | Some s \<Rightarrow> s)
      in if approximateLength \<le> 0 then Some (Inl (Error ''ID length must be a positive integer''))
         else if approximateLength > MAX_ID_LENGTH
           then Some (Inl (Error ''ID length exceeds maximum of 54 characters''))
         else (let hexLength = calculateHexLength approximateLength in
               case generateRandomHexToken rng pos (nat ((hexLength + 1) div 2)) of
                 None \<Rightarrow> None
               | Some (hexToken, pos') \<Rightarrow>
                   (let hexHash = sha1 digest (salt @ hexToken);
                        hexId = interleave hexToken hexHash (nat hexLength)
                    in Some (Inr \<lparr>hexLength_of = hexLength, hexToken_of = hexToken,
                                  hexHash_of = hexHash, hexId_of = hexId\<rparr>))))"

definition createId ::
  "(string \<Rightarrow> byte list) \<Rightarrow> (nat \<Rightarrow> byte) \<Rightarrow> nat \<Rightarrow> create_options \<Rightarrow> (error + string) option" where
  "createId digest rng pos opts =
     (case createId_run digest rng pos opts of
        None \<Rightarrow> None
      | Some (Inl e) \<Rightarrow> Some (Inl e)
      | Some (Inr locals) \<Rightarrow> Some (hexToCustomAlphabet (hexId_of locals)))"

text \<open>The body of \<^verbatim>\<open>verifyId\<close> inside \<^verbatim>\<open>try\<close>, the same text in both copies.\<close>

definition verifyId_try :: "(string \<Rightarrow> byte list) \<Rightarrow> string \<Rightarrow> string \<Rightarrow> error + bool" where
  "verifyId_try digest idStr salt =
     (case customAlphabetToHex idStr of
        Inl e \<Rightarrow> Inl e
      | Inr hexId \<Rightarrow>
          (case split_hexId hexId of
             (extractedHexToken, extractedHexHash) \<Rightarrow>
               if length extractedHexHash = 0 then Inr False
               else (let expectedHexValue = sha1 digest (salt @ extractedHexToken)
                     in Inr (startsWith expectedHexValue extractedHexHash))))"

definition verifyId_body :: "(string \<Rightarrow> byte list) \<Rightarrow> string \<Rightarrow> string \<Rightarrow> error + bool" where
  "verifyId_body digest idStr salt =
     (if idStr = [] \<or> int (length idStr) > MAX_ID_LENGTH then Inr False
      else (case verifyId_try digest idStr salt of
              Inl error \<Rightarrow> Inr False
            | Inr b \<Rightarrow> Inr b))"

text \<open>
  First copy: \<^verbatim>\<open>verifyId(id: string, { salt = SALT })\<close>.  The second parameter has no
  default, so a call without it destructures \<^verbatim>\<open>undefined\<close>: the promise rejects with a
  \<^verbatim>\<open>TypeError\<close> before the body runs.  \<open>None\<close> is the omitted argument.
\<close>

definition verifyId :: "(string \<Rightarrow> byte list) \<Rightarrow> string \<Rightarrow> verify_options option \<Rightarrow> error + bool" where
  "verifyId digest idStr opts =
     (case opts of
        None \<Rightarrow> Inl TypeError
      | Some given \<Rightarrow>
          verifyId_body digest idStr (case vopt_salt given of None \<Rightarrow> SALT | Some s \<Rightarrow> s))"

text \<open>Second copy: \<^verbatim>\<open>verifyId(id: string, { salt = SALT } = {})\<close>, with salt \<^verbatim>\<open>'legid:'\<close>.\<close>

definition verifyId_legid :: "(string \<Rightarrow> byte list) \<Rightarrow> string \<Rightarrow> verify_options option \<Rightarrow> error + bool" where
  "verifyId_legid digest idStr opts =
     (let given = (case opts of None \<Rightarrow> \<lparr>vopt_salt = None\<rparr> | Some g \<Rightarrow> g) in
      verifyId_body digest idStr (case vopt_salt given of None \<Rightarrow> SALT_legid | Some s \<Rightarrow> s))"

section \<open>Vocabulary of the statements\<close>

text \<open>
  Hexadecimal strings, the integer such a string denotes, and the string with its leading
  zero digits removed.  \<open>codec_roundtrip h\<close> is the expression
  \<^verbatim>\<open>customAlphabetToHex(hexToCustomAlphabet(h))\<close>, an exception of the inner call
  propagating.  \<open>digestOK\<close> is the one fact used about the platform's SHA-1: it yields
  20 bytes.
\<close>

definition isHexString :: "string \<Rightarrow> bool" where
  "isHexString h = list_all (\<lambda>c. hexDigitValue c \<noteq> None) h"

definition isLowerHexDigit :: "char \<Rightarrow> bool" where
  "isLowerHexDigit c = (c \<in> set ''0123456789abcdef'')"

definition isLowerHexString :: "string \<Rightarrow> bool" where
  "isLowerHexString h = list_all isLowerHexDigit h"

definition hexValue :: "string \<Rightarrow> nat" where
  "hexValue h = foldl (\<lambda>v c. 16 * v + (case hexDigitValue c of None \<Rightarrow> 0 | Some d \<Rightarrow> d)) 0 h"

text \<open>A hexadecimal digit in lowercase; any other character unchanged.\<close>

definition lowerHexDigit :: "char \<Rightarrow> char" where
  "lowerHexDigit c = (case hexDigitValue c of None \<Rightarrow> c | Some d \<Rightarrow> hexDigit d)"

definition stripLeadingZeros :: "string \<Rightarrow> string" where
  "stripLeadingZeros h = (let s = dropWhile (\<lambda>c. c = CHR ''0'') h in if s = [] then ''0'' else s)"

definition codec_roundtrip :: "string \<Rightarrow> error + string" where
  "codec_roundtrip h = (case hexToCustomAlphabet h of Inl e \<Rightarrow> Inl e | Inr s \<Rightarrow> customAlphabetToHex s)"

definition digestOK :: "(string \<Rightarrow> byte list) \<Rightarrow> bool" where
  "digestOK digest = (\<forall>text. length (digest text) = 20)"

definition isInvalidLength :: "error \<Rightarrow> bool" where
  "isInvalidLength e =
     (e = Error ''ID length must be a positive integer'' \<or>
      e = Error ''ID length exceeds maximum of 54 characters'')"

text \<open>
  A sample entropy stream and a sample digest, for concrete runs: the stream makes the
  loop re-roll before it delivers a usable buffer; the digest is the first 20 code units
  of the padded text.
\<close>

definition sample_rng :: "nat \<Rightarrow> byte" where
  "sample_rng i = (if i < 8 then 5 else if i = 8 then 31 else of_nat i)"

definition sample_digest :: "string \<Rightarrow> byte list" where
  "sample_digest text = map (\<lambda>c. of_nat (of_char c)) (take 20 (text @ replicate 20 CHR ''x''))"

text \<open>
  The number of bytes of each buffer that \<^verbatim>\<open>createId\<close> draws for a given
  \<^verbatim>\<open>approximateLength\<close>: the token has \<open>(hexLength + 1) >> 1\<close> digits, two to a byte.
\<close>

definition tokenBytes :: "int \<Rightarrow> nat" where
  "tokenBytes n = (nat ((calculateHexLength n + 1) div 2) + 1) div 2"

section \<open>The codec\<close>

lemma length_ALPHABET: "length ALPHABET = 62"
  by (simp add: ALPHABET_def)

lemma distinct_ALPHABET: "distinct ALPHABET"
  by (simp add: ALPHABET_def)

lemma indexOf_absent: "indexOf xs c = - 1 \<longleftrightarrow> c \<notin> set xs"
  and indexOf_nonneg_or: "indexOf xs c = - 1 \<or> (0 \<le> indexOf xs c \<and> indexOf xs c < int (length xs))"
  by (induction xs) (auto simp: Let_def)

lemma indexOf_nth: "distinct xs \<Longrightarrow> k < length xs \<Longrightarrow> indexOf xs (xs ! k) = int k"
proof (induction xs arbitrary: k)
  case Nil
  then show ?case by simp
next
  case (Cons x xs)
  show ?case
  proof (cases k)
    case 0
    then show ?thesis by simp
  next
    case (Suc j)
    with Cons.prems have j: "j < length xs" and d: "distinct xs" and nx: "xs ! j \<noteq> x"
      by auto
    from Cons.IH[OF d j] show ?thesis using Suc nx by (simp add: Let_def)
  qed
qed

lemma indexOf_ALPHABET: "k < 62 \<Longrightarrow> indexOf ALPHABET (ALPHABET ! k) = int k"
  by (rule indexOf_nth[OF distinct_ALPHABET]) (simp add: length_ALPHABET)

lemma decode_encode_loop:
  "customAlphabetToHex_loop (hexToCustomAlphabet_loop v acc) 0 = customAlphabetToHex_loop acc v"
proof (induction v acc rule: hexToCustomAlphabet_loop.induct)
  case (1 decimal result)
  have m: "decimal mod 62 < 62" by simp
  show ?case
  proof (cases "decimal div 62 > 0")
    case True
    have "customAlphabetToHex_loop (hexToCustomAlphabet_loop decimal result) 0
        = customAlphabetToHex_loop (hexToCustomAlphabet_loop (decimal div 62) (ALPHABET ! (decimal mod 62) # result)) 0"
      using True by (subst hexToCustomAlphabet_loop.simps) (simp add: length_ALPHABET Let_def)
    also have "\<dots> = customAlphabetToHex_loop (ALPHABET ! (decimal mod 62) # result) (decimal div 62)"
      using "1.IH"[OF refl refl refl refl] True by (simp add: length_ALPHABET)
    also have "\<dots> = customAlphabetToHex_loop result decimal"
      by (simp add: indexOf_ALPHABET[OF m] length_ALPHABET Let_def)
    finally show ?thesis .
  next
    case False
    then have lt: "decimal < 62" by (simp add: div_eq_0_iff)
    have "hexToCustomAlphabet_loop decimal result = ALPHABET ! decimal # result"
      using False lt by (subst hexToCustomAlphabet_loop.simps) (simp add: length_ALPHABET Let_def)
    then show ?thesis
      using lt by (simp add: indexOf_ALPHABET[OF lt] length_ALPHABET Let_def)
  qed
qed

lemma encode_nonempty: "hexToCustomAlphabet_loop v acc \<noteq> []"
  by (induction v acc rule: hexToCustomAlphabet_loop.induct)
     (subst hexToCustomAlphabet_loop.simps, simp add: Let_def)


lemma hexDigit_lt16_cases:
  "d < 16 \<Longrightarrow> d = 0 \<or> d = 1 \<or> d = 2 \<or> d = 3 \<or> d = 4 \<or> d = 5 \<or> d = 6 \<or> d = 7 \<or> d = 8
     \<or> d = 9 \<or> d = 10 \<or> d = 11 \<or> d = 12 \<or> d = 13 \<or> d = 14 \<or> d = (15::nat)"
  by arith

lemma hexDigitValue_hexDigit:
  assumes "d < 16"
  shows "hexDigitValue (hexDigit d) = Some d"
  using hexDigit_lt16_cases[OF assms] by (elim disjE) (simp_all add: hexDigit_def hexDigitValue_def)

lemma hexDigit_lower:
  assumes "d < 16"
  shows "isLowerHexDigit (hexDigit d)"
  using hexDigit_lt16_cases[OF assms] by (elim disjE) (simp_all add: hexDigit_def isLowerHexDigit_def)

lemma lower_hexDigitValue:
  assumes "isLowerHexDigit c"
  shows "\<exists>d<16. hexDigitValue c = Some d \<and> hexDigit d = c"
proof -
  from assms have "c = CHR ''0'' \<or> c = CHR ''1'' \<or> c = CHR ''2'' \<or> c = CHR ''3'' \<or> c = CHR ''4''
      \<or> c = CHR ''5'' \<or> c = CHR ''6'' \<or> c = CHR ''7'' \<or> c = CHR ''8'' \<or> c = CHR ''9''
      \<or> c = CHR ''a'' \<or> c = CHR ''b'' \<or> c = CHR ''c'' \<or> c = CHR ''d'' \<or> c = CHR ''e'' \<or> c = CHR ''f''"
    by (simp add: isLowerHexDigit_def)
  then show ?thesis
    by (elim disjE) (simp_all add: hexDigit_def hexDigitValue_def)
qed

lemma hexDigitValue_lt16: "hexDigitValue c = Some d \<Longrightarrow> d < 16"
  by (auto simp: hexDigitValue_def Let_def split: if_splits)

lemma hexDigit_zero_iff:
  assumes "d < 16"
  shows "hexDigit d = CHR ''0'' \<longleftrightarrow> d = 0"
  using hexDigit_lt16_cases[OF assms] by (elim disjE) (simp_all add: hexDigit_def)

lemma isLowerHexString_isHexString: "isLowerHexString h \<Longrightarrow> isHexString h"
  unfolding isLowerHexString_def isHexString_def list_all_iff
  using lower_hexDigitValue by fastforce

lemma hex_code_not_whitespace:
  "(48 \<le> k \<and> k \<le> 57) \<or> (97 \<le> k \<and> k \<le> 102) \<or> (65 \<le> k \<and> k \<le> 70) \<Longrightarrow>
   k \<noteq> 9 \<and> k \<noteq> 10 \<and> k \<noteq> 11 \<and> k \<noteq> 12 \<and> k \<noteq> 13 \<and> k \<noteq> 32 \<and> k \<noteq> (160::nat)"
  by arith

lemma hexDigitValue_range:
  "hexDigitValue c \<noteq> None \<Longrightarrow>
   (48 \<le> (of_char c :: nat) \<and> (of_char c :: nat) \<le> 57) \<or> (97 \<le> (of_char c :: nat) \<and> (of_char c :: nat) \<le> 102)
     \<or> (65 \<le> (of_char c :: nat) \<and> (of_char c :: nat) \<le> 70)"
  unfolding hexDigitValue_def Let_def by (simp split: if_splits)

lemma hex_not_whitespace: "hexDigitValue c \<noteq> None \<Longrightarrow> \<not> isStrWhiteSpaceChar c"
  using hex_code_not_whitespace[OF hexDigitValue_range, of c] by (simp add: isStrWhiteSpaceChar_def)

lemma hexDigitValue_zero: "hexDigitValue c = Some 0 \<longleftrightarrow> c = CHR ''0''"
proof
  assume "hexDigitValue c = Some 0"
  then have "(of_char c :: nat) = 48"
    unfolding hexDigitValue_def Let_def by (simp split: if_splits)
  then have "(of_char c :: nat) = of_char CHR ''0''" by simp
  then show "c = CHR ''0''" by (rule of_char_eqI)
next
  assume "c = CHR ''0''"
  then show "hexDigitValue c = Some 0" by (simp add: hexDigitValue_def)
qed

lemma hexValue_snoc:
  "hexValue (h @ [c]) = 16 * hexValue h + (case hexDigitValue c of None \<Rightarrow> 0 | Some d \<Rightarrow> d)"
  by (simp add: hexValue_def)

lemma hexValue_Nil: "hexValue [] = 0"
  by (simp add: hexValue_def)

lemma parseHexDigits_foldl:
  "list_all (\<lambda>c. hexDigitValue c \<noteq> None) h \<Longrightarrow>
   parseHexDigits h acc = Some (foldl (\<lambda>v c. 16 * v + (case hexDigitValue c of None \<Rightarrow> 0 | Some d \<Rightarrow> d)) acc h)"
  by (induction h arbitrary: acc) auto

lemma parseHexDigits_hexValue: "isHexString h \<Longrightarrow> parseHexDigits h 0 = Some (hexValue h)"
  by (simp add: isHexString_def hexValue_def parseHexDigits_foldl)

lemma strip_whitespace_hex:
  assumes "isHexString h"
  shows "rev (dropWhile isStrWhiteSpaceChar (rev h)) = h"
proof (cases h rule: rev_cases)
  case Nil
  then show ?thesis by simp
next
  case (snoc ys y)
  with assms have "hexDigitValue y \<noteq> None" by (simp add: isHexString_def)
  then have "\<not> isStrWhiteSpaceChar y" by (rule hex_not_whitespace)
  with snoc show ?thesis by simp
qed

lemma BigInt_0x_hex: "isHexString h \<Longrightarrow> h \<noteq> [] \<Longrightarrow> BigInt_0x h = Inr (hexValue h)"
  by (simp add: BigInt_0x_def strip_whitespace_hex parseHexDigits_hexValue)

lemma hexToCustomAlphabet_hex:
  "isHexString h \<Longrightarrow> h \<noteq> [] \<Longrightarrow> hexToCustomAlphabet h = Inr (hexToCustomAlphabet_loop (hexValue h) [])"
  by (simp add: hexToCustomAlphabet_def BigInt_0x_hex)

lemma customAlphabetToHex_encode:
  "customAlphabetToHex (hexToCustomAlphabet_loop v []) = Inr (toString16 v)"
  by (simp add: customAlphabetToHex_def encode_nonempty decode_encode_loop)

lemma codec_roundtrip_hex:
  "isHexString h \<Longrightarrow> h \<noteq> [] \<Longrightarrow> codec_roundtrip h = Inr (toString16 (hexValue h))"
  by (simp add: codec_roundtrip_def hexToCustomAlphabet_hex customAlphabetToHex_encode)

lemma codec_roundtrip_Nil: "codec_roundtrip [] = Inr []"
  by (simp add: codec_roundtrip_def hexToCustomAlphabet_def customAlphabetToHex_def)

lemma toString16_step:
  "d < 16 \<Longrightarrow> toString16 (16 * v + d) = (if v = 0 then [hexDigit d] else toString16 v @ [hexDigit d])"
  by (subst toString16.simps) auto

lemma toString16_digit: "d < 16 \<Longrightarrow> toString16 d = [hexDigit d]"
  by (subst toString16.simps) simp

lemma toString16_nonempty: "toString16 n \<noteq> []"
  by (subst toString16.simps) simp

lemma isLowerHexString_toString16: "isLowerHexString (toString16 n)"
proof (induction n rule: toString16.induct)
  case (1 n)
  show ?case
  proof (cases "n < 16")
    case True
    then show ?thesis
      by (subst toString16.simps) (simp add: isLowerHexString_def hexDigit_lower)
  next
    case False
    have "n mod 16 < 16" by simp
    then have "isLowerHexDigit (hexDigit (n mod 16))" by (rule hexDigit_lower)
    with 1 False show ?thesis
      by (subst toString16.simps) (simp add: isLowerHexString_def)
  qed
qed

lemma hexValue_toString16: "hexValue (toString16 n) = n"
proof (induction n rule: toString16.induct)
  case (1 n)
  show ?case
  proof (cases "n < 16")
    case True
    then show ?thesis
      by (subst toString16.simps) (simp add: hexValue_def hexDigitValue_hexDigit)
  next
    case False
    have m: "n mod 16 < 16" by simp
    from 1 False have "hexValue (toString16 (n div 16)) = n div 16" by simp
    then show ?thesis
      using False by (subst toString16.simps) (simp add: hexValue_snoc hexDigitValue_hexDigit[OF m])
  qed
qed

lemma hd_toString16: "n \<noteq> 0 \<Longrightarrow> hd (toString16 n) \<noteq> CHR ''0''"
proof (induction n rule: toString16.induct)
  case (1 n)
  show ?case
  proof (cases "n < 16")
    case True
    with "1.prems" show ?thesis
      by (subst toString16.simps) (simp add: hexDigit_zero_iff)
  next
    case False
    then have "n div 16 \<noteq> 0" by (simp add: div_eq_0_iff)
    with 1 False have "hd (toString16 (n div 16)) \<noteq> CHR ''0''" by simp
    then show ?thesis
      using False by (subst toString16.simps) (simp add: toString16_nonempty)
  qed
qed

lemma hexValue_zero_iff:
  "isHexString h \<Longrightarrow> hexValue h = 0 \<longleftrightarrow> dropWhile (\<lambda>c. c = CHR ''0'') h = []"
proof (induction h rule: rev_induct)
  case Nil
  then show ?case by (simp add: hexValue_def)
next
  case (snoc c h)
  then have h: "isHexString h" and c: "hexDigitValue c \<noteq> None"
    by (simp_all add: isHexString_def)
  then obtain d where d: "hexDigitValue c = Some d" by auto
  have z: "d = 0 \<longleftrightarrow> c = CHR ''0''"
    using d hexDigitValue_zero[of c] by auto
  show ?case
    using snoc.IH[OF h] d z by (auto simp: hexValue_snoc dropWhile_append dropWhile_eq_Nil_conv)
qed

lemma toString16_hexValue:
  "isLowerHexString h \<Longrightarrow> h \<noteq> [] \<Longrightarrow> toString16 (hexValue h) = stripLeadingZeros h"
proof (induction h rule: rev_induct)
  case Nil
  then show ?case by simp
next
  case (snoc c h)
  then have h: "isLowerHexString h" and c: "isLowerHexDigit c"
    by (simp_all add: isLowerHexString_def)
  from lower_hexDigitValue[OF c] obtain d where d: "d < 16" "hexDigitValue c = Some d" "hexDigit d = c"
    by auto
  have hh: "isHexString h" using h by (rule isLowerHexString_isHexString)
  have v: "hexValue (h @ [c]) = 16 * hexValue h + d"
    by (simp add: hexValue_snoc d)
  show ?case
  proof (cases "hexValue h = 0")
    case True
    then have all0: "dropWhile (\<lambda>c. c = CHR ''0'') h = []"
      using hexValue_zero_iff[OF hh] by simp
    have "toString16 (hexValue (h @ [c])) = [c]"
      using True d by (simp add: v toString16_digit)
    moreover have "stripLeadingZeros (h @ [c]) = [c]"
      using all0 by (auto simp: stripLeadingZeros_def dropWhile_append dropWhile_eq_Nil_conv)
    ultimately show ?thesis by simp
  next
    case False
    then have ne: "dropWhile (\<lambda>c. c = CHR ''0'') h \<noteq> []"
      using hexValue_zero_iff[OF hh] by simp
    then have hne: "h \<noteq> []" by auto
    have "toString16 (hexValue (h @ [c])) = toString16 (hexValue h) @ [c]"
      using False d by (simp add: v toString16_step)
    also have "\<dots> = stripLeadingZeros h @ [c]"
      using snoc.IH[OF h hne] by simp
    also have "\<dots> = stripLeadingZeros (h @ [c])"
      using ne by (auto simp: stripLeadingZeros_def dropWhile_append dropWhile_eq_Nil_conv Let_def)
    finally show ?thesis .
  qed
qed

lemma lowerHexDigit_props:
  assumes "hexDigitValue c \<noteq> None"
  shows "isLowerHexDigit (lowerHexDigit c)" and "hexDigitValue (lowerHexDigit c) = hexDigitValue c"
proof -
  from assms obtain d where d: "hexDigitValue c = Some d" by auto
  then have lt: "d < 16" by (rule hexDigitValue_lt16)
  show "isLowerHexDigit (lowerHexDigit c)"
    using hexDigit_lower[OF lt] by (simp add: lowerHexDigit_def d)
  show "hexDigitValue (lowerHexDigit c) = hexDigitValue c"
    using hexDigitValue_hexDigit[OF lt] by (simp add: lowerHexDigit_def d)
qed

lemma lowerHexDigit_id: "isLowerHexDigit c \<Longrightarrow> lowerHexDigit c = c"
  using lower_hexDigitValue[of c] by (auto simp: lowerHexDigit_def)

lemma map_lowerHexDigit_id: "isLowerHexString h \<Longrightarrow> map lowerHexDigit h = h"
  unfolding isLowerHexString_def list_all_iff
  by (induction h) (simp_all add: lowerHexDigit_id)

lemma isLowerHexString_map_lower: "isHexString h \<Longrightarrow> isLowerHexString (map lowerHexDigit h)"
  unfolding isHexString_def isLowerHexString_def list_all_iff
  by (simp add: lowerHexDigit_props(1))

lemma hexValue_map_lower: "isHexString h \<Longrightarrow> hexValue (map lowerHexDigit h) = hexValue h"
proof (induction h rule: rev_induct)
  case Nil
  then show ?case by simp
next
  case (snoc c h)
  then have h: "isHexString h" and c: "hexDigitValue c \<noteq> None"
    by (simp_all add: isHexString_def)
  from snoc.IH[OF h] lowerHexDigit_props(2)[OF c] show ?case
    by (simp add: hexValue_snoc)
qed

lemma toString16_hexValue_any_case:
  assumes "isHexString h" and "h \<noteq> []"
  shows "toString16 (hexValue h) = stripLeadingZeros (map lowerHexDigit h)"
proof -
  have "toString16 (hexValue (map lowerHexDigit h)) = stripLeadingZeros (map lowerHexDigit h)"
    using assms(2) by (intro toString16_hexValue isLowerHexString_map_lower[OF assms(1)]) simp
  then show ?thesis by (simp add: hexValue_map_lower[OF assms(1)])
qed

section \<open>Interleaving and splitting, proved\<close>

lemma interleave_loop_concat:
  "interleave_loop t d n i acc =
     acc @ concat (map (\<lambda>j. if j mod 2 \<noteq> 0 then stringIndex d (j div 2) else stringIndex t (j div 2)) [i..<n])"
proof (induction t d n i acc rule: interleave_loop.induct)
  case (1 t d n i acc)
  show ?case
  proof (cases "i < n")
    case True
    then have up: "[i..<n] = i # [i + 1..<n]" by (simp add: upt_conv_Cons)
    show ?thesis
      using True "1.IH"[OF True]
      by (subst interleave_loop.simps) (simp add: up del: upt_Suc)
  next
    case False
    then show ?thesis by (subst interleave_loop.simps) simp
  qed
qed

lemma interleave_in_range:
  assumes t: "(n + 1) div 2 \<le> length t" and d: "n div 2 \<le> length d"
  shows "interleave t d n = map (\<lambda>j. if j mod 2 \<noteq> 0 then d ! (j div 2) else t ! (j div 2)) [0..<n]"
proof -
  have "concat (map (\<lambda>j. if j mod 2 \<noteq> 0 then stringIndex d (j div 2) else stringIndex t (j div 2)) [0..<n])
      = concat (map (\<lambda>j. [if j mod 2 \<noteq> 0 then d ! (j div 2) else t ! (j div 2)]) [0..<n])"
  proof (rule arg_cong[where f = concat], rule map_cong[OF refl])
    fix j assume "j \<in> set [0..<n]"
    then have j: "j < n" by simp
    show "(if j mod 2 \<noteq> 0 then stringIndex d (j div 2) else stringIndex t (j div 2))
        = [if j mod 2 \<noteq> 0 then d ! (j div 2) else t ! (j div 2)]"
    proof (cases "j mod 2 \<noteq> 0")
      case True
      with j d have "j div 2 < length d" by arith
      with True show ?thesis by (simp add: stringIndex_def)
    next
      case False
      with j t have "j div 2 < length t" by arith
      with False show ?thesis by (simp add: stringIndex_def)
    qed
  qed
  also have "\<dots> = map (\<lambda>j. if j mod 2 \<noteq> 0 then d ! (j div 2) else t ! (j div 2)) [0..<n]"
    by (induction n) simp_all
  finally show ?thesis
    by (simp add: interleave_def interleave_loop_concat)
qed

lemma split_loop_maps:
  "i \<le> length s \<Longrightarrow>
   split_loop s i tk hs =
     (tk @ map (\<lambda>k. s ! (2 * k)) [(i + 1) div 2..<(length s + 1) div 2],
      hs @ map (\<lambda>k. s ! (2 * k + 1)) [i div 2..<length s div 2])"
proof (induction s i tk hs rule: split_loop.induct)
  case (1 s i tk hs)
  show ?case
  proof (cases "i < length s")
    case False
    with "1.prems" have "i = length s" by simp
    then show ?thesis by (subst split_loop.simps) simp
  next
    case lt: True
    show ?thesis
    proof (cases "i mod 2 \<noteq> 0")
      case True
      have a: "(i + 1 + 1) div 2 = (i + 1) div 2" using True by arith
      have b: "(i + 1) div 2 = Suc (i div 2)" using True by arith
      have c: "i div 2 < length s div 2" using True lt by arith
      have e: "2 * (i div 2) + 1 = i" using True by arith
      have up: "[i div 2..<length s div 2] = i div 2 # [Suc (i div 2)..<length s div 2]"
        using c by (simp add: upt_conv_Cons)
      have "split_loop s i tk hs = split_loop s (i + 1) tk (hs @ [s ! i])"
        using lt True by (subst split_loop.simps) simp
      also have "\<dots> = (tk @ map (\<lambda>k. s ! (2 * k)) [(i + 1 + 1) div 2..<(length s + 1) div 2],
          (hs @ [s ! i]) @ map (\<lambda>k. s ! (2 * k + 1)) [(i + 1) div 2..<length s div 2])"
        using "1.IH"(1)[OF lt True] lt by simp
      finally show ?thesis
        by (simp only: a b up list.map e append_assoc append_Cons append_Nil)
    next
      case False
      have a: "(i + 1 + 1) div 2 = Suc ((i + 1) div 2)" using False by arith
      have b: "(i + 1) div 2 = i div 2" using False by arith
      have c: "i div 2 < (length s + 1) div 2" using False lt by arith
      have e: "2 * (i div 2) = i" using False by arith
      have up: "[i div 2..<(length s + 1) div 2] = i div 2 # [Suc (i div 2)..<(length s + 1) div 2]"
        using c by (simp add: upt_conv_Cons)
      have "split_loop s i tk hs = split_loop s (i + 1) (tk @ [s ! i]) hs"
        using lt False by (subst split_loop.simps) simp
      also have "\<dots> = ((tk @ [s ! i]) @ map (\<lambda>k. s ! (2 * k)) [(i + 1 + 1) div 2..<(length s + 1) div 2],
          hs @ map (\<lambda>k. s ! (2 * k + 1)) [(i + 1) div 2..<length s div 2])"
        using "1.IH"(2)[OF lt False] lt by simp
      finally show ?thesis
        by (simp only: a b up list.map e append_assoc append_Cons append_Nil)
    qed
  qed
qed

lemma split_hexId_maps:
  "split_hexId s = (map (\<lambda>k. s ! (2 * k)) [0..<(length s + 1) div 2],
                    map (\<lambda>k. s ! (2 * k + 1)) [0..<length s div 2])"
  by (simp add: split_hexId_def split_loop_maps)

lemma length_split_hexId:
  "length (fst (split_hexId s)) = (length s + 1) div 2" "length (snd (split_hexId s)) = length s div 2"
  by (simp_all add: split_hexId_maps)

lemma take_as_map_nth: "k \<le> length xs \<Longrightarrow> map (\<lambda>j. xs ! j) [0..<k] = take k xs"
  by (rule nth_equalityI) simp_all

lemma split_interleave:
  assumes t: "(n + 1) div 2 \<le> length t" and d: "n div 2 \<le> length d"
  shows "split_hexId (interleave t d n) = (take ((n + 1) div 2) t, take (n div 2) d)"
proof -
  let ?r = "interleave t d n"
  have r: "?r = map (\<lambda>j. if j mod 2 \<noteq> 0 then d ! (j div 2) else t ! (j div 2)) [0..<n]"
    by (rule interleave_in_range[OF t d])
  have len: "length ?r = n" by (simp add: r)
  have ev: "map (\<lambda>k. ?r ! (2 * k)) [0..<(n + 1) div 2] = map (\<lambda>j. t ! j) [0..<(n + 1) div 2]"
  proof (rule map_cong[OF refl])
    fix k assume "k \<in> set [0..<(n + 1) div 2]"
    then have "2 * k < n" by simp
    then show "?r ! (2 * k) = t ! k" by (simp add: r)
  qed
  have od: "map (\<lambda>k. ?r ! (2 * k + 1)) [0..<n div 2] = map (\<lambda>j. d ! j) [0..<n div 2]"
  proof (rule map_cong[OF refl])
    fix k assume "k \<in> set [0..<n div 2]"
    then have "2 * k + 1 < n" by simp
    then show "?r ! (2 * k + 1) = d ! k" by (simp add: r)
  qed
  show ?thesis
    by (simp only: split_hexId_maps len ev od take_as_map_nth[OF t] take_as_map_nth[OF d])
qed

lemma interleave_split: "interleave (fst (split_hexId s)) (snd (split_hexId s)) (length s) = s"
proof -
  let ?t = "fst (split_hexId s)" and ?d = "snd (split_hexId s)"
  have t: "(length s + 1) div 2 \<le> length ?t" and d: "length s div 2 \<le> length ?d"
    by (simp_all add: length_split_hexId)
  have r: "interleave ?t ?d (length s)
      = map (\<lambda>j. if j mod 2 \<noteq> 0 then ?d ! (j div 2) else ?t ! (j div 2)) [0..<length s]"
    by (rule interleave_in_range[OF t d])
  show ?thesis
  proof (rule nth_equalityI)
    show "length (interleave ?t ?d (length s)) = length s" by (simp add: r)
  next
    fix i assume "i < length (interleave ?t ?d (length s))"
    then have i: "i < length s" by (simp add: r)
    show "interleave ?t ?d (length s) ! i = s ! i"
    proof (cases "i mod 2 \<noteq> 0")
      case True
      then have k: "i div 2 < length s div 2" and e: "2 * (i div 2) + 1 = i" using i by arith+
      have "?d ! (i div 2) = s ! (2 * (i div 2) + 1)"
        using k by (simp add: split_hexId_maps)
      then have "?d ! (i div 2) = s ! i" by (simp only: e)
      moreover have "interleave ?t ?d (length s) ! i = ?d ! (i div 2)"
        using True i by (simp only: r) simp
      ultimately show ?thesis by simp
    next
      case False
      then have k: "i div 2 < (length s + 1) div 2" and e: "2 * (i div 2) = i" using i by arith+
      have "?t ! (i div 2) = s ! (2 * (i div 2))"
        using k by (simp add: split_hexId_maps)
      then have "?t ! (i div 2) = s ! i" by (simp only: e)
      moreover have "interleave ?t ?d (length s) ! i = ?t ! (i div 2)"
        using False i by (simp only: r) simp
      ultimately show ?thesis by simp
    qed
  qed
qed

section \<open>The entropy source, proved\<close>

lemma loop_post:
  assumes "generateRandomHexToken_loop rng pos array = Some r"
  shows "length (fst r) = length array \<and> (fst r = [] \<or> 16 \<le> hd (fst r))"
proof (rule generateRandomHexToken_loop.raw_induct
    [where P = "\<lambda>g p a r. length (fst r) = length a \<and> (fst r = [] \<or> 16 \<le> hd (fst r))", OF _ assms])
  fix loop :: "(nat \<Rightarrow> byte) \<Rightarrow> nat \<Rightarrow> byte list \<Rightarrow> (byte list \<times> nat) option"
  fix g p a r
  assume IH: "\<And>g p a r. loop g p a = Some r \<Longrightarrow>
      length (fst r) = length a \<and> (fst r = [] \<or> 16 \<le> hd (fst r))"
  assume eq: "(if a \<noteq> [] \<and> hd a < 16
      then case getRandomValues g p (length a) of (array', pos') \<Rightarrow> loop g pos' array'
      else Some (a, p)) = Some r"
  show "length (fst r) = length a \<and> (fst r = [] \<or> 16 \<le> hd (fst r))"
  proof (cases "a \<noteq> [] \<and> hd a < 16")
    case True
    with eq have "loop g (p + length a) (map g [p..<p + length a]) = Some r"
      by (simp add: getRandomValues_def)
    from IH[OF this] show ?thesis by simp
  next
    case False
    with eq have "r = (a, p)" by auto
    with False show ?thesis by auto
  qed
qed

lemma loop_terminates:
  assumes n: "0 < n" and k: "16 \<le> rng (p + k * n)"
  shows "\<exists>r. generateRandomHexToken_loop rng (p + n) (map rng [p..<p + n]) = Some r"
  using k
proof (induction k arbitrary: p)
  case 0
  have "hd (map rng [p..<p + n]) = rng p"
    using n by (simp add: upt_conv_Cons)
  with 0 have "\<not> hd (map rng [p..<p + n]) < 16" by simp
  then show ?case
    by (subst generateRandomHexToken_loop.simps) simp
next
  case (Suc k)
  have "p + n + k * n = p + Suc k * n" by simp
  then have "16 \<le> rng (p + n + k * n)"
    using Suc.prems by (simp only:)
  from Suc.IH[OF this] obtain r where
    r: "generateRandomHexToken_loop rng (p + n + n) (map rng [p + n..<p + n + n]) = Some r" ..
  show ?case
    using r by (subst generateRandomHexToken_loop.simps) (simp add: getRandomValues_def)
qed

lemma byteHex:
  "padStart (toString16 (unat (b :: byte))) 2 CHR ''0'' = [hexDigit (unat b div 16), hexDigit (unat b mod 16)]"
proof -
  have lt: "unat b < 256" using unsigned_less[of b, where ?'a = nat] by simp
  show ?thesis
  proof (cases "unat b < 16")
    case True
    then show ?thesis
      by (subst toString16.simps) (simp add: padStart_def hexDigit_def)
  next
    case False
    from lt have "unat b div 16 < 16" by simp
    then have "toString16 (unat b div 16) = [hexDigit (unat b div 16)]" by (rule toString16_digit)
    then show ?thesis using False
      by (subst toString16.simps) (simp add: padStart_def)
  qed
qed

lemma length_arrayBufferToHex: "length (arrayBufferToHex bs) = 2 * length bs"
  by (induction bs) (simp_all add: arrayBufferToHex_def byteHex)

lemma isLowerHexString_arrayBufferToHex: "isLowerHexString (arrayBufferToHex bs)"
proof (induction bs)
  case Nil
  then show ?case by (simp add: arrayBufferToHex_def isLowerHexString_def)
next
  case (Cons b bs)
  have "unat b < 256" using unsigned_less[of b, where ?'a = nat] by simp
  then have "unat b div 16 < 16" by simp
  then have hi: "isLowerHexDigit (hexDigit (unat b div 16))" by (rule hexDigit_lower)
  have "unat b mod 16 < 16" by simp
  then have lo: "isLowerHexDigit (hexDigit (unat b mod 16))" by (rule hexDigit_lower)
  from Cons hi lo show ?case
    by (simp add: arrayBufferToHex_def isLowerHexString_def byteHex)
qed

lemma hd_arrayBufferToHex:
  assumes "bs \<noteq> []" and "16 \<le> hd bs"
  shows "hd (arrayBufferToHex bs) \<noteq> CHR ''0''"
proof -
  from assms obtain b rest where bs: "bs = b # rest" and b: "16 \<le> b"
    by (cases bs) auto
  have "unat b < 256" using unsigned_less[of b, where ?'a = nat] by simp
  then have lt: "unat b div 16 < 16" by simp
  from b have "16 \<le> unat b" by (simp add: word_le_nat_alt)
  then have "unat b div 16 \<noteq> 0" by simp
  then have "hexDigit (unat b div 16) \<noteq> CHR ''0''"
    using hexDigit_zero_iff[OF lt] by simp
  then show ?thesis
    by (simp add: bs arrayBufferToHex_def byteHex)
qed

lemma isLowerHexString_take: "isLowerHexString s \<Longrightarrow> isLowerHexString (take n s)"
  unfolding isLowerHexString_def list_all_iff by (auto dest: in_set_takeD)

lemma generateRandomHexToken_post:
  assumes "generateRandomHexToken rng pos len = Some (tok, pos')"
  shows "length tok = len \<and> isLowerHexString tok \<and> (0 < len \<longrightarrow> hd tok \<noteq> CHR ''0'')"
proof -
  let ?n = "(len + 1) div 2"
  let ?a0 = "map rng [pos..<pos + ?n]"
  from assms obtain arr where
    loop: "generateRandomHexToken_loop rng (pos + ?n) ?a0 = Some (arr, pos')"
    and tok: "tok = take len (arrayBufferToHex arr)"
    by (auto simp: generateRandomHexToken_def getRandomValues_def split: option.splits)
  from loop_post[OF loop] have la: "length arr = ?n" and hi: "arr = [] \<or> 16 \<le> hd arr"
    by simp_all
  have len: "length tok = len"
    by (simp add: tok length_arrayBufferToHex la)
  have low: "isLowerHexString tok"
    unfolding tok by (rule isLowerHexString_take[OF isLowerHexString_arrayBufferToHex])
  have first: "hd tok \<noteq> CHR ''0''" if pos: "0 < len"
  proof -
    from pos la have ne: "arr \<noteq> []" by auto
    with hi have "16 \<le> hd arr" by simp
    from hd_arrayBufferToHex[OF ne this] show ?thesis
      using pos by (simp add: tok hd_take)
  qed
  from len low first show ?thesis by blast
qed

lemma generateRandomHexToken_terminates:
  assumes "0 < len" and "16 \<le> rng (pos + k * ((len + 1) div 2))"
  shows "\<exists>tok pos'. generateRandomHexToken rng pos len = Some (tok, pos')"
proof -
  from assms(1) have n: "0 < (len + 1) div 2" by simp
  from loop_terminates[where rng = rng and p = pos and k = k, OF n assms(2)] obtain r where
    "generateRandomHexToken_loop rng (pos + (len + 1) div 2) (map rng [pos..<pos + (len + 1) div 2]) = Some r" ..
  then show ?thesis
    by (cases r) (simp add: generateRandomHexToken_def getRandomValues_def)
qed

lemma loop_returns_only_if:
  assumes "generateRandomHexToken_loop rng pos array = Some r"
  shows "array = map rng [pos - length array..<pos] \<and> length array \<le> pos \<and> array \<noteq> [] \<longrightarrow>
         (\<exists>k. 16 \<le> rng (pos - length array + k * length array))"
proof (rule generateRandomHexToken_loop.raw_induct
    [where P = "\<lambda>g p a r. a = map g [p - length a..<p] \<and> length a \<le> p \<and> a \<noteq> [] \<longrightarrow>
         (\<exists>k. 16 \<le> g (p - length a + k * length a))", OF _ assms])
  fix loop :: "(nat \<Rightarrow> byte) \<Rightarrow> nat \<Rightarrow> byte list \<Rightarrow> (byte list \<times> nat) option"
  fix g p a r
  assume IH: "\<And>g p a r. loop g p a = Some r \<Longrightarrow>
      a = map g [p - length a..<p] \<and> length a \<le> p \<and> a \<noteq> [] \<longrightarrow>
         (\<exists>k. 16 \<le> g (p - length a + k * length a))"
  assume eq: "(if a \<noteq> [] \<and> hd a < 16
      then case getRandomValues g p (length a) of (array', pos') \<Rightarrow> loop g pos' array'
      else Some (a, p)) = Some r"
  show "a = map g [p - length a..<p] \<and> length a \<le> p \<and> a \<noteq> [] \<longrightarrow>
         (\<exists>k. 16 \<le> g (p - length a + k * length a))"
  proof
    assume inv: "a = map g [p - length a..<p] \<and> length a \<le> p \<and> a \<noteq> []"
    then have a: "a = map g [p - length a..<p]" and le: "length a \<le> p" and ne: "a \<noteq> []"
      by simp_all
    from ne have n0: "0 < length a" by simp
    have hd: "hd a = g (p - length a)"
    proof -
      have "hd a = a ! 0" using ne by (simp add: hd_conv_nth)
      also have "\<dots> = map g [p - length a..<p] ! 0" using a by simp
      also have "\<dots> = g ([p - length a..<p] ! 0)" using n0 le by (subst nth_map) simp_all
      also have "[p - length a..<p] ! 0 = p - length a"
      proof -
        have "p - length a + 0 < p" using n0 le by arith
        then show ?thesis by (simp only: nth_upt add_0_right)
      qed
      finally show ?thesis .
    qed
    show "\<exists>k. 16 \<le> g (p - length a + k * length a)"
    proof (cases "hd a < 16")
      case False
      then have "16 \<le> g (p - length a + 0 * length a)" using hd by simp
      then show ?thesis by blast
    next
      case True
      with eq ne have "loop g (p + length a) (map g [p..<p + length a]) = Some r"
        by (simp add: getRandomValues_def)
      from IH[OF this] n0 obtain k where "16 \<le> g (p + k * length a)"
        by auto
      then have "16 \<le> g (p - length a + Suc k * length a)"
        using le by simp
      then show ?thesis by blast
    qed
  qed
qed

lemma generateRandomHexToken_returns_only_if:
  assumes len: "0 < len" and r: "generateRandomHexToken rng pos len = Some (tok, pos')"
  shows "\<exists>k. 16 \<le> rng (pos + k * ((len + 1) div 2))"
proof -
  let ?n = "(len + 1) div 2"
  from r obtain arr where
    loop: "generateRandomHexToken_loop rng (pos + ?n) (map rng [pos..<pos + ?n]) = Some (arr, pos')"
    by (auto simp: generateRandomHexToken_def getRandomValues_def split: option.splits)
  from len have n: "0 < ?n" by simp
  from loop_returns_only_if[OF loop] n show ?thesis by simp
qed

section \<open>The length budget, proved\<close>

lemma floor_rat_numeral: "\<lfloor>numeral a / numeral b :: rat\<rfloor> = numeral a div numeral b"
  using floor_divide_of_int_eq[of "numeral a" "numeral b", where ?'a = rat] by simp

lemma log2floor_numeral:
  "log2floor (numeral k) = (if numeral k < (2::nat) then 0 else Suc (log2floor (numeral k div 2)))"
  "log2floor 0 = 0" "log2floor (Suc 0) = 0" "log2floor 1 = 0"
  by (subst log2floor.simps, simp)+

lemmas double_eval =
  toDouble_def Let_def binade_def log2floor_numeral floor_rat_numeral pow2_def roundTiesToEven_def

lemma HEX_TO_ALPHABET_RATIO_value: "HEX_TO_ALPHABET_RATIO = 6703833225322352 / 4503599627370496"
  by (simp add: HEX_TO_ALPHABET_RATIO_def double_eval)

lemma calculateHexLength_cases:
  "calculateHexLength 1 = 1" "calculateHexLength 2 = 2" "calculateHexLength 3 = 4"
  "calculateHexLength 4 = 5" "calculateHexLength 5 = 7" "calculateHexLength 6 = 8"
  "calculateHexLength 7 = 10" "calculateHexLength 8 = 11" "calculateHexLength 9 = 13"
  "calculateHexLength 10 = 14" "calculateHexLength 11 = 16" "calculateHexLength 12 = 17"
  "calculateHexLength 13 = 19" "calculateHexLength 14 = 20" "calculateHexLength 15 = 22"
  "calculateHexLength 16 = 23" "calculateHexLength 17 = 25" "calculateHexLength 18 = 26"
  "calculateHexLength 19 = 28" "calculateHexLength 20 = 29" "calculateHexLength 21 = 31"
  "calculateHexLength 22 = 32" "calculateHexLength 23 = 34" "calculateHexLength 24 = 35"
  "calculateHexLength 25 = 37" "calculateHexLength 26 = 38" "calculateHexLength 27 = 40"
  "calculateHexLength 28 = 41" "calculateHexLength 29 = 43" "calculateHexLength 30 = 44"
  "calculateHexLength 31 = 46" "calculateHexLength 32 = 47" "calculateHexLength 33 = 49"
  "calculateHexLength 34 = 50" "calculateHexLength 35 = 52" "calculateHexLength 36 = 53"
  "calculateHexLength 37 = 55" "calculateHexLength 38 = 56" "calculateHexLength 39 = 58"
  "calculateHexLength 40 = 59" "calculateHexLength 41 = 61" "calculateHexLength 42 = 62"
  "calculateHexLength 43 = 64" "calculateHexLength 44 = 65" "calculateHexLength 45 = 66"
  "calculateHexLength 46 = 68" "calculateHexLength 47 = 69" "calculateHexLength 48 = 71"
  "calculateHexLength 49 = 72" "calculateHexLength 50 = 74" "calculateHexLength 51 = 75"
  "calculateHexLength 52 = 77" "calculateHexLength 53 = 78" "calculateHexLength 54 = 80"
  by (simp_all add: calculateHexLength_def HEX_TO_ALPHABET_RATIO_value double_eval)

lemma calculateHexLength_exact:
  assumes "1 \<le> k" and "k \<le> 54"
  shows "calculateHexLength k = (k * 148855) div 100000"
proof -
  have first: "[1..54] = (1::int) # [2..54]"
    by (subst upto.simps) simp
  have "list_all (\<lambda>j. calculateHexLength j = (j * 148855) div 100000) [1..54]"
    by (simp add: first upto_rec_numeral calculateHexLength_cases)
  moreover have "k \<in> set [1..54]" using assms by simp
  ultimately show ?thesis unfolding list_all_iff by blast
qed

lemma floor_ratio: "\<lfloor>of_int n * (148855 / 100000 :: rat)\<rfloor> = (n * 148855) div 100000"
proof -
  have "of_int n * (148855 / 100000 :: rat) = of_int (n * 148855) / of_int 100000"
    by simp
  then show ?thesis
    by (simp only: floor_divide_of_int_eq)
qed

section \<open>Assembling and decoding an identifier\<close>

lemma length_encode:
  "0 < k \<Longrightarrow> v < 62 ^ k \<Longrightarrow> length (hexToCustomAlphabet_loop v acc) \<le> k + length acc"
proof (induction v acc arbitrary: k rule: hexToCustomAlphabet_loop.induct)
  case (1 decimal result)
  show ?case
  proof (cases "decimal div 62 > 0")
    case True
    obtain j where k: "k = Suc j" using "1.prems"(1) by (cases k) auto
    have j0: "0 < j"
    proof (rule ccontr)
      assume "\<not> 0 < j"
      with k "1.prems"(2) have "decimal < 62" by simp
      with True show False by simp
    qed
    have b: "decimal div length ALPHABET < 62 ^ j"
      using "1.prems"(2) k by (simp add: less_mult_imp_div_less mult.commute length_ALPHABET)
    have g: "0 < decimal div length ALPHABET"
      using True by (simp add: length_ALPHABET)
    from "1.IH"[OF refl refl refl refl g j0 b]
    have "length (hexToCustomAlphabet_loop (decimal div 62) (ALPHABET ! (decimal mod 62) # result))
        \<le> j + length (ALPHABET ! (decimal mod 62) # result)"
      by (simp add: length_ALPHABET)
    then show ?thesis
      using True k by (subst hexToCustomAlphabet_loop.simps) (simp add: length_ALPHABET Let_def)
  next
    case False
    then show ?thesis
      using "1.prems"(1) by (subst hexToCustomAlphabet_loop.simps) (simp add: length_ALPHABET Let_def)
  qed
qed

lemma hexValue_bound: "isHexString h \<Longrightarrow> hexValue h < 16 ^ length h"
proof (induction h rule: rev_induct)
  case Nil
  then show ?case by (simp add: hexValue_def)
next
  case (snoc c h)
  then have h: "isHexString h" and c: "hexDigitValue c \<noteq> None"
    by (simp_all add: isHexString_def)
  then obtain d where d: "hexDigitValue c = Some d" by auto
  then have d16: "d < 16" by (rule hexDigitValue_lt16)
  from snoc.IH[OF h] have "hexValue h + 1 \<le> 16 ^ length h" by simp
  then have "16 * (hexValue h + 1) \<le> 16 * 16 ^ length h" by (rule mult_le_mono2)
  with d16 show ?case by (simp add: hexValue_snoc d)
qed

lemma pow_16_80_le: "(16::nat) ^ 80 \<le> 62 ^ 54"
  by simp

lemma stripLeadingZeros_id: "h \<noteq> [] \<Longrightarrow> hd h \<noteq> CHR ''0'' \<Longrightarrow> stripLeadingZeros h = h"
  by (cases h) (simp_all add: stripLeadingZeros_def)

lemma sha1_length: "digestOK digest \<Longrightarrow> length (sha1 digest text) = 40"
  by (simp add: sha1_def length_arrayBufferToHex digestOK_def)

lemma sha1_lower: "isLowerHexString (sha1 digest text)"
  by (simp add: sha1_def isLowerHexString_arrayBufferToHex)

lemma isLowerHexString_nth: "isLowerHexString s \<Longrightarrow> i < length s \<Longrightarrow> isLowerHexDigit (s ! i)"
  by (simp add: isLowerHexString_def list_all_length)

lemma interleave_lower:
  assumes t: "(n + 1) div 2 \<le> length t" and d: "n div 2 \<le> length d"
    and lt: "isLowerHexString t" and ld: "isLowerHexString d"
  shows "isLowerHexString (interleave t d n)"
proof -
  have od: "isLowerHexDigit (d ! (j div 2))" if "j < n" and "j mod 2 = Suc 0" for j
  proof -
    from that d have "j div 2 < length d" by arith
    with ld show ?thesis by (rule isLowerHexString_nth)
  qed
  have ev: "isLowerHexDigit (t ! (j div 2))" if "j < n" and "j mod 2 = 0" for j
  proof -
    from that t have "j div 2 < length t" by arith
    with lt show ?thesis by (rule isLowerHexString_nth)
  qed
  show ?thesis
    by (simp add: interleave_in_range[OF t d] isLowerHexString_def list_all_length od ev)
qed

lemma length_interleave:
  "(n + 1) div 2 \<le> length t \<Longrightarrow> n div 2 \<le> length d \<Longrightarrow> length (interleave t d n) = n"
  by (simp add: interleave_in_range)

lemma hd_interleave:
  assumes t: "(n + 1) div 2 \<le> length t" and d: "n div 2 \<le> length d" and n: "0 < n"
  shows "hd (interleave t d n) = hd t"
proof -
  from n t have "t \<noteq> []" by auto
  then have "hd t = t ! 0" by (simp add: hd_conv_nth)
  moreover have "interleave t d n \<noteq> []"
    using n by (simp add: interleave_in_range[OF t d])
  then have "hd (interleave t d n) = interleave t d n ! 0" by (simp add: hd_conv_nth)
  moreover have "interleave t d n ! 0 = t ! 0"
    using n by (simp add: interleave_in_range[OF t d])
  ultimately show ?thesis by simp
qed

lemma calculateHexLength_bounds:
  assumes "1 \<le> n" and "n \<le> 54"
  shows "1 \<le> calculateHexLength n" and "calculateHexLength n \<le> 80"
    and "2 \<le> n \<Longrightarrow> 2 \<le> calculateHexLength n"
  using assms by (simp_all add: calculateHexLength_exact[OF assms])

lemma startsWith_take: "startsWith s (take k s)"
  by (simp add: startsWith_def min_def take_all)

lemma createId_run_valid:
  fixes so :: "string option"
  assumes n: "1 \<le> n" "n \<le> 54"
    and tok: "generateRandomHexToken rng pos (nat ((calculateHexLength n + 1) div 2)) = Some (tok, pos')"
  defines "s \<equiv> (case so of None \<Rightarrow> SALT | Some s' \<Rightarrow> s')"
  shows "createId_run digest rng pos \<lparr>opt_approximateLength = Some n, opt_salt = so\<rparr> =
     Some (Inr \<lparr>hexLength_of = calculateHexLength n, hexToken_of = tok,
                 hexHash_of = sha1 digest (s @ tok),
                 hexId_of = interleave tok (sha1 digest (s @ tok)) (nat (calculateHexLength n))\<rparr>)"
  using n tok by (simp add: createId_run_def MAX_ID_LENGTH_def Let_def s_def)

lemma createId_run_diverges:
  assumes n: "1 \<le> n" "n \<le> 54"
    and tok: "generateRandomHexToken rng pos (nat ((calculateHexLength n + 1) div 2)) = None"
  shows "createId_run digest rng pos \<lparr>opt_approximateLength = Some n, opt_salt = so\<rparr> = None"
  using n tok by (simp add: createId_run_def MAX_ID_LENGTH_def Let_def)

lemma createId_run_invalid:
  "n \<le> 0 \<Longrightarrow> createId_run digest rng pos \<lparr>opt_approximateLength = Some n, opt_salt = so\<rparr> =
     Some (Inl (Error ''ID length must be a positive integer''))"
  "54 < n \<Longrightarrow> createId_run digest rng pos \<lparr>opt_approximateLength = Some n, opt_salt = so\<rparr> =
     Some (Inl (Error ''ID length exceeds maximum of 54 characters''))"
  by (simp_all add: createId_run_def MAX_ID_LENGTH_def Let_def)

text \<open>Facts about the hex id that a valid run of createId assembles.\<close>

lemma hexId_facts:
  fixes s :: string
  assumes n: "1 \<le> n" "n \<le> 54"
    and dg: "digestOK digest"
    and tok: "generateRandomHexToken rng pos (nat ((calculateHexLength n + 1) div 2)) = Some (tok, pos')"
  defines "h \<equiv> nat (calculateHexLength n)"
  defines "hash \<equiv> sha1 digest (s @ tok)"
  defines "hid \<equiv> interleave tok hash h"
  shows "length tok = (h + 1) div 2" and "length hid = h" and "isLowerHexString hid"
    and "hid \<noteq> []" and "hd hid \<noteq> CHR ''0''"
    and "split_hexId hid = (tok, take (h div 2) hash)"
    and "1 \<le> h" and "h \<le> 80"
proof -
  from calculateHexLength_bounds[OF n] have h1: "1 \<le> h" and h80: "h \<le> 80"
    by (simp_all add: h_def)
  have req: "nat ((calculateHexLength n + 1) div 2) = (h + 1) div 2"
    using calculateHexLength_bounds(1)[OF n] by (simp add: h_def nat_div_distrib nat_add_distrib)
  from generateRandomHexToken_post[OF tok]
  have lt: "length tok = (h + 1) div 2" and low: "isLowerHexString tok"
    and first: "hd tok \<noteq> CHR ''0''"
    using h1 by (simp_all add: req)
  have lh: "length hash = 40" by (simp add: hash_def sha1_length[OF dg])
  have t: "(h + 1) div 2 \<le> length tok" by (simp add: lt)
  have d: "h div 2 \<le> length hash" using h80 by (simp add: lh)
  show "length tok = (h + 1) div 2" by (rule lt)
  show len: "length hid = h" unfolding hid_def by (rule length_interleave[OF t d])
  show "isLowerHexString hid"
    unfolding hid_def by (rule interleave_lower[OF t d low]) (simp add: hash_def sha1_lower)
  show "hid \<noteq> []" using len h1 by auto
  show "hd hid \<noteq> CHR ''0''"
    unfolding hid_def using hd_interleave[OF t d] h1 first by simp
  show "split_hexId hid = (tok, take (h div 2) hash)"
    unfolding hid_def using split_interleave[OF t d] lt by simp
  show "1 \<le> h" by (rule h1)
  show "h \<le> 80" by (rule h80)
qed

lemma encode_canonical:
  assumes low: "isLowerHexString hid" and ne: "hid \<noteq> []" and first: "hd hid \<noteq> CHR ''0''"
    and len: "length hid \<le> 80"
  defines "ident \<equiv> hexToCustomAlphabet_loop (hexValue hid) []"
  shows "hexToCustomAlphabet hid = Inr ident" and "ident \<noteq> []" and "length ident \<le> 54"
    and "customAlphabetToHex ident = Inr hid"
proof -
  have hex: "isHexString hid" using low by (rule isLowerHexString_isHexString)
  show "hexToCustomAlphabet hid = Inr ident"
    unfolding ident_def by (rule hexToCustomAlphabet_hex[OF hex ne])
  show "ident \<noteq> []" unfolding ident_def by (rule encode_nonempty)
  have "hexValue hid < 16 ^ length hid" by (rule hexValue_bound[OF hex])
  also have "(16::nat) ^ length hid \<le> 16 ^ 80"
    using len by (intro power_increasing) simp_all
  also have "\<dots> \<le> 62 ^ 54" by (rule pow_16_80_le)
  finally have "hexValue hid < 62 ^ 54" .
  from length_encode[OF _ this, of "[]"] show "length ident \<le> 54"
    by (simp add: ident_def)
  show "customAlphabetToHex ident = Inr hid"
    unfolding ident_def
    by (simp add: customAlphabetToHex_encode toString16_hexValue[OF low ne] stripLeadingZeros_id[OF ne first])
qed

lemma sample_digest_ok: "digestOK sample_digest"
  by (auto simp: digestOK_def sample_digest_def min_def)

lemma encode_zero: "hexToCustomAlphabet_loop 0 [] = [ALPHABET ! 0]"
  by (subst hexToCustomAlphabet_loop.simps) (simp add: length_ALPHABET)

section \<open>Facts about createId and verifyId\<close>

lemma log_16_62_bounds: "(64 / 43 :: real) < log 16 62" "log 16 62 < (195 / 131 :: real)"
proof -
  have p16: "0 < ln (16::real)" by simp
  have a: "ln ((16::real) ^ 64) = 64 * ln 16" using ln_realpow[of "16::real" 64] by simp
  have b: "ln ((62::real) ^ 43) = 43 * ln 62" using ln_realpow[of "62::real" 43] by simp
  have c: "ln ((62::real) ^ 131) = 131 * ln 62" using ln_realpow[of "62::real" 131] by simp
  have d: "ln ((16::real) ^ 195) = 195 * ln 16" using ln_realpow[of "16::real" 195] by simp
  have "ln ((16::real) ^ 64) < ln (62 ^ 43)"
    by (subst ln_less_cancel_iff) simp_all
  then have "64 * ln 16 < 43 * ln (62::real)"
    unfolding a b .
  then have "64 / 43 < ln 62 / ln (16::real)"
    using p16 by (simp add: field_simps)
  then show "(64 / 43 :: real) < log 16 62" by (simp add: log_def)
  have "ln ((62::real) ^ 131) < ln (16 ^ 195)"
    by (subst ln_less_cancel_iff) simp_all
  then have "131 * ln 62 < 195 * ln (16::real)"
    unfolding c d .
  then have "ln 62 / ln (16::real) < 195 / 131"
    using p16 by (simp add: field_simps)
  then show "log 16 62 < (195 / 131 :: real)" by (simp add: log_def)
qed

lemma ratio_near_log: "\<bar>148855 / 100000 - log 16 62\<bar> < (2 / 10000 :: real)"
  using log_16_62_bounds by (simp add: abs_less_iff)

lemma ceiling_half: "\<lceil>of_int h / (2::rat)\<rceil> = (h + 1) div 2"
proof -
  have "\<lceil>of_int h / (of_int 2 :: rat)\<rceil> = - (- h div 2)"
    by (rule ceiling_divide_eq_div)
  also have "\<dots> = (h + 1) div 2" by presburger
  finally show ?thesis by simp
qed

lemma createId_run_Inr:
  assumes n: "1 \<le> n" "n \<le> 54"
    and r: "createId_run digest rng pos \<lparr>opt_approximateLength = Some n, opt_salt = so\<rparr> = Some (Inr st)"
  shows "\<exists>tok pos'. generateRandomHexToken rng pos (nat ((calculateHexLength n + 1) div 2)) = Some (tok, pos') \<and>
           hexLength_of st = calculateHexLength n \<and> hexToken_of st = tok"
proof (cases "generateRandomHexToken rng pos (nat ((calculateHexLength n + 1) div 2))")
  case None
  from createId_run_diverges[OF n None] r show ?thesis by simp
next
  case (Some a)
  then obtain tok pos' where
    t: "generateRandomHexToken rng pos (nat ((calculateHexLength n + 1) div 2)) = Some (tok, pos')"
    by (cases a) simp
  from createId_run_valid[OF n t, of digest so] r
  have "hexLength_of st = calculateHexLength n" and "hexToken_of st = tok" by auto
  with t show ?thesis by simp
qed

lemma createId_returns:
  assumes n: "1 \<le> n" "n \<le> 54" and dg: "digestOK digest"
    and tok: "generateRandomHexToken rng pos (nat ((calculateHexLength n + 1) div 2)) = Some (tok, pos')"
    and s: "s = (case so of None \<Rightarrow> SALT | Some s' \<Rightarrow> s')"
    and hid: "hid = interleave tok (sha1 digest (s @ tok)) (nat (calculateHexLength n))"
    and ident: "ident = hexToCustomAlphabet_loop (hexValue hid) []"
  shows "createId digest rng pos \<lparr>opt_approximateLength = Some n, opt_salt = so\<rparr> = Some (Inr ident)"
    and "ident \<noteq> []" and "length ident \<le> 54" and "customAlphabetToHex ident = Inr hid"
    and "split_hexId hid = (tok, take (nat (calculateHexLength n) div 2) (sha1 digest (s @ tok)))"
proof -
  have f2: "length hid = nat (calculateHexLength n)"
    unfolding hid by (rule hexId_facts(2)[OF n dg tok])
  have f3: "isLowerHexString hid"
    unfolding hid by (rule hexId_facts(3)[OF n dg tok])
  have f4: "hid \<noteq> []"
    unfolding hid by (rule hexId_facts(4)[OF n dg tok])
  have f5: "hd hid \<noteq> CHR ''0''"
    unfolding hid by (rule hexId_facts(5)[OF n dg tok])
  have f8: "nat (calculateHexLength n) \<le> 80"
    by (rule hexId_facts(8)[OF n dg tok])
  have len: "length hid \<le> 80" using f2 f8 by simp
  have e1: "hexToCustomAlphabet hid = Inr ident"
    unfolding ident by (rule encode_canonical(1)[OF f3 f4 f5 len])
  show "createId digest rng pos \<lparr>opt_approximateLength = Some n, opt_salt = so\<rparr> = Some (Inr ident)"
    using createId_run_valid[OF n tok, of digest so] e1
    by (simp add: createId_def hid s)
  show "ident \<noteq> []" unfolding ident by (rule encode_canonical(2)[OF f3 f4 f5 len])
  show "length ident \<le> 54" unfolding ident by (rule encode_canonical(3)[OF f3 f4 f5 len])
  show "customAlphabetToHex ident = Inr hid"
    unfolding ident by (rule encode_canonical(4)[OF f3 f4 f5 len])
  show "split_hexId hid = (tok, take (nat (calculateHexLength n) div 2) (sha1 digest (s @ tok)))"
    unfolding hid by (rule hexId_facts(6)[OF n dg tok])
qed

lemma verifyId_body_created:
  assumes n: "1 \<le> n" "n \<le> 54" and dg: "digestOK digest"
    and tok: "generateRandomHexToken rng pos (nat ((calculateHexLength n + 1) div 2)) = Some (tok, pos')"
  shows "verifyId_body digest
           (hexToCustomAlphabet_loop (hexValue (interleave tok (sha1 digest (s @ tok)) (nat (calculateHexLength n)))) [])
           s = Inr (2 \<le> n)"
proof -
  let ?h = "nat (calculateHexLength n)"
  let ?hash = "sha1 digest (s @ tok)"
  let ?hid = "interleave tok ?hash ?h"
  let ?ident = "hexToCustomAlphabet_loop (hexValue ?hid) []"
  have so: "s = (case Some s of None \<Rightarrow> SALT | Some s' \<Rightarrow> s')" by simp
  note c = createId_returns[OF n dg tok so refl refl]
  have lh: "length ?hash = 40" by (rule sha1_length[OF dg])
  have h80: "?h \<le> 80" using calculateHexLength_bounds(2)[OF n] by simp
  have lp: "length (take (?h div 2) ?hash) = ?h div 2" using h80 lh by simp
  have two: "?h div 2 = 0 \<longleftrightarrow> \<not> 2 \<le> n"
  proof (cases "2 \<le> n")
    case True
    from calculateHexLength_bounds(3)[OF n True] show ?thesis using True by simp
  next
    case False
    with n have "n = 1" by simp
    then show ?thesis by (simp add: calculateHexLength_cases)
  qed
  have hne: "?hash \<noteq> []" using lh by auto
  have "verifyId_try digest ?ident s = Inr (2 \<le> n)"
    using two hne by (simp add: verifyId_try_def c(4) c(5) lp startsWith_take)
  then show ?thesis
    using c(2) c(3) by (simp add: verifyId_body_def MAX_ID_LENGTH_def)
qed

lemma createId_never_throws_valid:
  assumes n: "1 \<le> n" "n \<le> 54" and dg: "digestOK digest"
  shows "createId digest rng pos \<lparr>opt_approximateLength = Some n, opt_salt = so\<rparr> \<noteq> Some (Inl e)"
proof (cases "generateRandomHexToken rng pos (nat ((calculateHexLength n + 1) div 2))")
  case None
  from createId_run_diverges[OF n None] show ?thesis by (simp add: createId_def)
next
  case (Some a)
  then obtain tok pos' where
    t: "generateRandomHexToken rng pos (nat ((calculateHexLength n + 1) div 2)) = Some (tok, pos')"
    by (cases a) simp
  from createId_returns(1)[OF n dg t refl refl refl] show ?thesis by simp
qed

lemma createId_returns_when_usable:
  assumes n: "1 \<le> n" "n \<le> 54" and dg: "digestOK digest"
    and k: "16 \<le> rng (pos + k * tokenBytes n)"
  shows "\<exists>ident. createId digest rng pos \<lparr>opt_approximateLength = Some n, opt_salt = so\<rparr> = Some (Inr ident)
           \<and> ident \<noteq> [] \<and> length ident \<le> 54"
proof -
  have pos: "0 < nat ((calculateHexLength n + 1) div 2)"
    using calculateHexLength_bounds(1)[OF n] by simp
  from generateRandomHexToken_terminates[OF pos, of rng pos k] k
  obtain tok pos' where
    t: "generateRandomHexToken rng pos (nat ((calculateHexLength n + 1) div 2)) = Some (tok, pos')"
    by (auto simp: tokenBytes_def)
  from createId_returns(1,2,3)[OF n dg t refl refl refl] show ?thesis by blast
qed

lemma verifyId_body_total: "\<exists>b. verifyId_body digest idStr s = Inr b"
  by (cases "verifyId_try digest idStr s") (auto simp: verifyId_body_def)

lemma verifyId_given_never_raises: "\<exists>b. verifyId digest idStr (Some given) = Inr b"
  by (simp add: verifyId_def verifyId_body_total)

lemma verifyId_legid_never_raises: "\<exists>b. verifyId_legid digest idStr opts = Inr b"
  by (simp add: verifyId_legid_def verifyId_body_total Let_def)

lemma verifyId_body_invalid:
  "idStr = [] \<or> 54 < length idStr \<or> (\<exists>e. customAlphabetToHex idStr = Inl e) \<Longrightarrow>
   verifyId_body digest idStr s = Inr False"
  by (auto simp: verifyId_body_def verifyId_try_def MAX_ID_LENGTH_def)

lemma verifyId_omitted_options: "verifyId digest idStr None = Inl TypeError"
  by (simp add: verifyId_def)

lemma snd_split_empty: "snd (split_hexId hexId) = [] \<longleftrightarrow> length hexId < 2"
proof -
  have "length (snd (split_hexId hexId)) = length hexId div 2" by (rule length_split_hexId(2))
  then show ?thesis by (metis length_0_conv div_eq_0_iff zero_neq_numeral)
qed

text \<open>
  The guards of \<^verbatim>\<open>verifyId\<close>, once its body runs (second copy: always; first copy: when
  the options argument is present).  An id that is empty or longer than 54 characters
  gives \<open>false\<close>, and so does an id whose decoded hex string leaves an empty digest part,
  which is the case exactly when that string has fewer than two digits.  Neither result
  depends on the digest primitive.
\<close>

lemma verifyId_rejection_policy:
  "(idStr = [] \<or> 54 < length idStr \<longrightarrow>
      verifyId digest idStr (Some given) = Inr False \<and> verifyId_legid digest idStr opts = Inr False) \<and>
   (customAlphabetToHex idStr = Inr hexId \<and> snd (split_hexId hexId) = [] \<longrightarrow>
      verifyId digest idStr (Some given) = Inr False \<and> verifyId_legid digest idStr opts = Inr False) \<and>
   (snd (split_hexId hexId) = [] \<longleftrightarrow> length hexId < 2)"
proof (intro conjI impI)
  assume a: "idStr = [] \<or> 54 < length idStr"
  then have "\<And>s. verifyId_body digest idStr s = Inr False"
    by (auto simp: verifyId_body_def MAX_ID_LENGTH_def)
  then show "verifyId digest idStr (Some given) = Inr False"
    and "verifyId_legid digest idStr opts = Inr False"
    by (simp_all add: verifyId_def verifyId_legid_def Let_def)
next
  assume a: "customAlphabetToHex idStr = Inr hexId \<and> snd (split_hexId hexId) = []"
  then have "\<And>s. verifyId_try digest idStr s = Inr False"
    by (cases "split_hexId hexId") (simp add: verifyId_try_def)
  then have "\<And>s. verifyId_body digest idStr s = Inr False"
    by (simp add: verifyId_body_def)
  then show "verifyId digest idStr (Some given) = Inr False"
    and "verifyId_legid digest idStr opts = Inr False"
    by (simp_all add: verifyId_def verifyId_legid_def Let_def)
next
  show "snd (split_hexId hexId) = [] \<longleftrightarrow> length hexId < 2" by (rule snd_split_empty)
qed

lemma verifyId_rejection_policy_sample:
  "54 < length (replicate 55 CHR ''a'') \<and>
   verifyId sample_digest [] (Some \<lparr>vopt_salt = None\<rparr>) = Inr False \<and>
   verifyId sample_digest (replicate 55 CHR ''a'') (Some \<lparr>vopt_salt = None\<rparr>) = Inr False \<and>
   customAlphabetToHex ''b'' = Inr ''1'' \<and> snd (split_hexId ''1'') = [] \<and>
   verifyId sample_digest ''b'' (Some \<lparr>vopt_salt = None\<rparr>) = Inr False \<and>
   verifyId_legid sample_digest ''b'' None = Inr False"
proof -
  have a: "54 < length (replicate 55 CHR ''a'')" by simp
  have b: "customAlphabetToHex ''b'' = Inr ''1''" by code_simp
  have c: "snd (split_hexId ''1'') = []" by code_simp
  from verifyId_rejection_policy[where idStr = "[]" and digest = sample_digest
      and given = "\<lparr>vopt_salt = None\<rparr>"]
  have 1: "verifyId sample_digest [] (Some \<lparr>vopt_salt = None\<rparr>) = Inr False" by simp
  from verifyId_rejection_policy[where idStr = "replicate 55 CHR ''a''" and digest = sample_digest
      and given = "\<lparr>vopt_salt = None\<rparr>"] a
  have 2: "verifyId sample_digest (replicate 55 CHR ''a'') (Some \<lparr>vopt_salt = None\<rparr>) = Inr False"
    by blast
  from verifyId_rejection_policy[where idStr = "''b''" and hexId = "''1''" and digest = sample_digest
      and given = "\<lparr>vopt_salt = None\<rparr>" and opts = None] b c
  have 3: "verifyId sample_digest ''b'' (Some \<lparr>vopt_salt = None\<rparr>) = Inr False"
    and 4: "verifyId_legid sample_digest ''b'' None = Inr False"
    by blast+
  from a b c 1 2 3 4 show ?thesis by (intro conjI)
qed

section \<open>Concrete runs\<close>

lemma generateRandomHexToken_sample:
  "generateRandomHexToken sample_rng 0 7 = Some (''1f090a0'', 12)"
  by code_simp

lemma createId_run_sample:
  "createId_run sample_digest sample_rng 0 \<lparr>opt_approximateLength = Some 10, opt_salt = None\<rparr>
     = Some (Inr \<lparr>hexLength_of = 14, hexToken_of = ''1f090a0'',
          hexHash_of = ''6c6567697469643a316630393061307878787878'',
          hexId_of = ''16fc069506a706''\<rparr>)"
  by code_simp

lemma createId_sample_10:
  "createId sample_digest sample_rng 0 \<lparr>opt_approximateLength = Some 10, opt_salt = Some ''pepper''\<rparr>
     = Some (Inr ''E1rxhuVNP'')"
proof -
  have "createId_run sample_digest sample_rng 0 \<lparr>opt_approximateLength = Some 10, opt_salt = Some ''pepper''\<rparr>
     = Some (Inr \<lparr>hexLength_of = 14, hexToken_of = ''1f090a0'',
          hexHash_of = ''7065707065723166303930613078787878787878'',
          hexId_of = ''17f0069507a007''\<rparr>)"
    by code_simp
  then show ?thesis
    by (simp add: createId_def hexToCustomAlphabet_def BigInt_0x_def isStrWhiteSpaceChar_def hexDigitValue_def
        hexToCustomAlphabet_loop.simps ALPHABET_def)
qed

lemma tokenBytes_10: "tokenBytes 10 = 4"
  by (simp add: tokenBytes_def calculateHexLength_cases)

lemma tokenBytes_54: "tokenBytes 54 = 20"
  by (simp add: tokenBytes_def calculateHexLength_cases)

section \<open>The claims\<close>

text \<open>
  Claim C1 (round trip), as amended.  Let \<open>approximateLength\<close> be in \<open>[1, 54]\<close>, the
  digest primitive return 20 bytes, and some buffer drawn from the entropy source start
  with a byte of at least 16 (so that the re-roll loop ends).  Then \<^verbatim>\<open>createId\<close>
  returns an identifier, and \<^verbatim>\<open>verifyId\<close> with the same salt returns \<open>true\<close> when
  \<open>approximateLength \<ge> 2\<close>, with no false negative at all, and \<open>false\<close> when
  \<open>approximateLength = 1\<close>: that identifier encodes one hex digit and carries no digest
  digit, which \<^verbatim>\<open>verifyId\<close> rejects by its explicit check.  Both copies of
  \<^verbatim>\<open>verifyId\<close> agree.
\<close>

theorem create_verify_roundtrip:
  assumes "1 \<le> n" and "n \<le> 54" and "digestOK digest"
    and "16 \<le> rng (pos + k * tokenBytes n)"
  shows "\<exists>ident. createId digest rng pos \<lparr>opt_approximateLength = Some n, opt_salt = Some s\<rparr> = Some (Inr ident) \<and>
           verifyId digest ident (Some \<lparr>vopt_salt = Some s\<rparr>) = Inr (2 \<le> n) \<and>
           verifyId_legid digest ident (Some \<lparr>vopt_salt = Some s\<rparr>) = Inr (2 \<le> n)"
proof -
  have pos: "0 < nat ((calculateHexLength n + 1) div 2)"
    using calculateHexLength_bounds(1)[OF assms(1,2)] by simp
  from generateRandomHexToken_terminates[OF pos, of rng pos k] assms(4)
  obtain tok pos' where
    tok: "generateRandomHexToken rng pos (nat ((calculateHexLength n + 1) div 2)) = Some (tok, pos')"
    by (auto simp: tokenBytes_def)
  let ?ident = "hexToCustomAlphabet_loop (hexValue (interleave tok (sha1 digest (s @ tok)) (nat (calculateHexLength n)))) []"
  have so: "s = (case Some s of None \<Rightarrow> SALT | Some s' \<Rightarrow> s')" by simp
  from createId_returns(1)[OF assms(1,2,3) tok so refl refl]
  have c: "createId digest rng pos \<lparr>opt_approximateLength = Some n, opt_salt = Some s\<rparr> = Some (Inr ?ident)"
    by simp
  note v = verifyId_body_created[OF assms(1,2,3) tok, of s]
  have "verifyId digest ?ident (Some \<lparr>vopt_salt = Some s\<rparr>) = Inr (2 \<le> n)"
    and "verifyId_legid digest ?ident (Some \<lparr>vopt_salt = Some s\<rparr>) = Inr (2 \<le> n)"
    using v by (simp_all add: verifyId_def verifyId_legid_def)
  with c show ?thesis by blast
qed

theorem create_verify_roundtrip_witness:
  "(1::int) \<le> 10 \<and> (10::int) \<le> 54 \<and> digestOK sample_digest \<and> 16 \<le> sample_rng (0 + 2 * tokenBytes 10) \<and>
   createId sample_digest sample_rng 0 \<lparr>opt_approximateLength = Some 10, opt_salt = Some ''pepper''\<rparr>
     = Some (Inr ''E1rxhuVNP'') \<and>
   verifyId sample_digest ''E1rxhuVNP'' (Some \<lparr>vopt_salt = Some ''pepper''\<rparr>) = Inr True \<and>
   verifyId_legid sample_digest ''E1rxhuVNP'' (Some \<lparr>vopt_salt = Some ''pepper''\<rparr>) = Inr True"
proof -
  have a: "(1::int) \<le> 10" and b: "(10::int) \<le> 54" by simp_all
  have k: "16 \<le> sample_rng (0 + 2 * tokenBytes 10)"
    by (simp add: tokenBytes_10 sample_rng_def)
  from create_verify_roundtrip[where n = 10 and digest = sample_digest and rng = sample_rng
      and pos = 0 and k = 2 and s = "''pepper''", OF a b sample_digest_ok k] createId_sample_10
  have "verifyId sample_digest ''E1rxhuVNP'' (Some \<lparr>vopt_salt = Some ''pepper''\<rparr>) = Inr True"
    and "verifyId_legid sample_digest ''E1rxhuVNP'' (Some \<lparr>vopt_salt = Some ''pepper''\<rparr>) = Inr True"
    by auto
  with a b sample_digest_ok k createId_sample_10 show ?thesis by simp
qed

text \<open>
  The claim as stated fails at \<open>approximateLength = 1\<close>: the identifier just created is
  rejected.
\<close>

theorem create_verify_length_one_counterexample:
  "createId sample_digest sample_rng 0 \<lparr>opt_approximateLength = Some 1, opt_salt = Some ''pepper''\<rparr>
     = Some (Inr ''b'') \<and>
   verifyId sample_digest ''b'' (Some \<lparr>vopt_salt = Some ''pepper''\<rparr>) = Inr False \<and>
   verifyId_legid sample_digest ''b'' (Some \<lparr>vopt_salt = Some ''pepper''\<rparr>) = Inr False"
  by code_simp

text \<open>
  Claim C2 (verifyId never raises).  In the first copy the options parameter has no
  default: a call that omits it rejects with a \<^verbatim>\<open>TypeError\<close>, for every id.  The
  second copy returns \<open>false\<close> on the same call, and the first does when an options
  object is passed.
\<close>

theorem verifyId_rejects_without_options:
  "verifyId sample_digest ''a'' None = Inl TypeError \<and>
   verifyId sample_digest '''' None = Inl TypeError \<and>
   verifyId_legid sample_digest ''a'' None = Inr False \<and>
   verifyId sample_digest ''a'' (Some \<lparr>vopt_salt = None\<rparr>) = Inr False"
  by code_simp

text \<open>
  Claim C3 (length validation).  \<^verbatim>\<open>createId\<close> throws exactly when
  \<open>approximateLength \<le> 0\<close> or \<open>approximateLength > 54\<close>, and what it throws is one of
  its two length errors; for \<open>approximateLength\<close> in \<open>[1, 54]\<close> (and a digest primitive
  that returns 20 bytes) it throws nothing, and it returns a non-empty identifier of at
  most 54 characters once some drawn buffer starts with a byte of at least 16.
\<close>

theorem createId_length_validation:
  "(n \<le> 0 \<or> 54 < n \<longrightarrow>
      (\<exists>e. createId digest rng pos \<lparr>opt_approximateLength = Some n, opt_salt = so\<rparr> = Some (Inl e)
            \<and> isInvalidLength e)) \<and>
   (1 \<le> n \<and> n \<le> 54 \<and> digestOK digest \<longrightarrow>
      (\<forall>e. createId digest rng pos \<lparr>opt_approximateLength = Some n, opt_salt = so\<rparr> \<noteq> Some (Inl e)) \<and>
      (16 \<le> rng (pos + k * tokenBytes n) \<longrightarrow>
         (\<exists>ident. createId digest rng pos \<lparr>opt_approximateLength = Some n, opt_salt = so\<rparr> = Some (Inr ident)
                  \<and> ident \<noteq> [] \<and> length ident \<le> 54)))"
proof (rule conjI; rule impI)
  assume "n \<le> 0 \<or> 54 < n"
  then show "\<exists>e. createId digest rng pos \<lparr>opt_approximateLength = Some n, opt_salt = so\<rparr> = Some (Inl e)
      \<and> isInvalidLength e"
  proof
    assume "n \<le> 0"
    from createId_run_invalid(1)[OF this] show ?thesis
      by (simp add: createId_def isInvalidLength_def)
  next
    assume "54 < n"
    from createId_run_invalid(2)[OF this] show ?thesis
      by (simp add: createId_def isInvalidLength_def)
  qed
next
  assume a: "1 \<le> n \<and> n \<le> 54 \<and> digestOK digest"
  then have n: "1 \<le> n" "n \<le> 54" and dg: "digestOK digest" by simp_all
  show "(\<forall>e. createId digest rng pos \<lparr>opt_approximateLength = Some n, opt_salt = so\<rparr> \<noteq> Some (Inl e)) \<and>
      (16 \<le> rng (pos + k * tokenBytes n) \<longrightarrow>
         (\<exists>ident. createId digest rng pos \<lparr>opt_approximateLength = Some n, opt_salt = so\<rparr> = Some (Inr ident)
                  \<and> ident \<noteq> [] \<and> length ident \<le> 54))"
    using createId_never_throws_valid[OF n dg] createId_returns_when_usable[OF n dg] by blast
qed

theorem createId_length_validation_witness:
  "createId sample_digest sample_rng 0 \<lparr>opt_approximateLength = Some 0, opt_salt = None\<rparr>
     = Some (Inl (Error ''ID length must be a positive integer'')) \<and>
   createId sample_digest sample_rng 0 \<lparr>opt_approximateLength = Some 55, opt_salt = None\<rparr>
     = Some (Inl (Error ''ID length exceeds maximum of 54 characters'')) \<and>
   (1::int) \<le> 54 \<and> digestOK sample_digest \<and> 16 \<le> sample_rng (0 + 1 * tokenBytes 54) \<and>
   (\<exists>ident. createId sample_digest sample_rng 0 \<lparr>opt_approximateLength = Some 54, opt_salt = None\<rparr>
       = Some (Inr ident) \<and> ident \<noteq> [] \<and> length ident \<le> 54)"
proof -
  have lo: "createId sample_digest sample_rng 0 \<lparr>opt_approximateLength = Some 0, opt_salt = None\<rparr>
     = Some (Inl (Error ''ID length must be a positive integer''))"
    using createId_length_validation[where n = 0 and digest = sample_digest and rng = sample_rng
        and pos = 0 and so = None]
    by (simp add: createId_def createId_run_def Let_def)
  have hi: "createId sample_digest sample_rng 0 \<lparr>opt_approximateLength = Some 55, opt_salt = None\<rparr>
     = Some (Inl (Error ''ID length exceeds maximum of 54 characters''))"
    using createId_length_validation[where n = 55 and digest = sample_digest and rng = sample_rng
        and pos = 0 and so = None]
    by (simp add: createId_def createId_run_def Let_def MAX_ID_LENGTH_def)
  have k: "16 \<le> sample_rng (0 + 1 * tokenBytes 54)"
    by (simp add: tokenBytes_54 sample_rng_def)
  from createId_length_validation[where n = 54 and digest = sample_digest and rng = sample_rng
      and pos = 0 and so = None and k = 1] sample_digest_ok k
  have "\<exists>ident. createId sample_digest sample_rng 0 \<lparr>opt_approximateLength = Some 54, opt_salt = None\<rparr>
       = Some (Inr ident) \<and> ident \<noteq> [] \<and> length ident \<le> 54"
    by simp
  with lo hi k sample_digest_ok show ?thesis by simp
qed

text \<open>
  Claim C4 (alphabet codec inverse).  For every non-negative integer \<open>n\<close>, decoding the
  encoding of its lowercase hexadecimal representation \<open>toString16 n\<close> gives that
  representation back, and the representation has no leading zero digit unless \<open>n = 0\<close>;
  said of strings, every non-empty lowercase hexadecimal string that does not start with
  \<open>0\<close> is returned unchanged.  For every hexadecimal string, of either case, with or
  without leading zeros, empty or not, the encoding decodes without an exception to a
  string that denotes the same unsigned integer.
\<close>

theorem codec_inverse:
  "codec_roundtrip (toString16 n) = Inr (toString16 n) \<and>
   (n \<noteq> 0 \<longrightarrow> hd (toString16 n) \<noteq> CHR ''0'') \<and>
   (isLowerHexString h \<and> h \<noteq> [] \<and> hd h \<noteq> CHR ''0'' \<longrightarrow> codec_roundtrip h = Inr h) \<and>
   (isHexString h \<longrightarrow> (\<exists>r. codec_roundtrip h = Inr r \<and> hexValue r = hexValue h))"
proof (intro conjI impI)
  have "codec_roundtrip (toString16 n) = Inr (toString16 (hexValue (toString16 n)))"
    by (rule codec_roundtrip_hex[OF isLowerHexString_isHexString[OF isLowerHexString_toString16]
          toString16_nonempty])
  then show "codec_roundtrip (toString16 n) = Inr (toString16 n)"
    by (simp add: hexValue_toString16)
next
  assume "n \<noteq> 0"
  then show "hd (toString16 n) \<noteq> CHR ''0''" by (rule hd_toString16)
next
  assume a: "isLowerHexString h \<and> h \<noteq> [] \<and> hd h \<noteq> CHR ''0''"
  then have low: "isLowerHexString h" and ne: "h \<noteq> []" and first: "hd h \<noteq> CHR ''0''"
    by simp_all
  show "codec_roundtrip h = Inr h"
    by (simp add: codec_roundtrip_hex[OF isLowerHexString_isHexString[OF low] ne]
        toString16_hexValue[OF low ne] stripLeadingZeros_id[OF ne first])
next
  assume hex: "isHexString h"
  show "\<exists>r. codec_roundtrip h = Inr r \<and> hexValue r = hexValue h"
  proof (cases "h = []")
    case True
    then show ?thesis by (simp add: codec_roundtrip_Nil)
  next
    case False
    then show ?thesis
      by (simp add: codec_roundtrip_hex[OF hex False] hexValue_toString16)
  qed
qed

theorem codec_inverse_witness:
  "codec_roundtrip (toString16 255) = Inr (toString16 255) \<and>
   isLowerHexString ''ff'' \<and> ''ff'' \<noteq> [] \<and> hd ''ff'' \<noteq> CHR ''0'' \<and> codec_roundtrip ''ff'' = Inr ''ff'' \<and>
   isHexString ''00Ff'' \<and> (\<exists>r. codec_roundtrip ''00Ff'' = Inr r \<and> hexValue r = 255)"
proof -
  have a: "isLowerHexString ''ff''" by (simp add: isLowerHexString_def isLowerHexDigit_def)
  have b: "isHexString ''00Ff''" by (simp add: isHexString_def hexDigitValue_def)
  have v: "hexValue ''00Ff'' = 255" by (simp add: hexValue_def hexDigitValue_def)
  from codec_inverse[of 255 "''ff''"] a have 1: "codec_roundtrip (toString16 255) = Inr (toString16 255)"
    and 2: "codec_roundtrip ''ff'' = Inr ''ff''" by simp_all
  from codec_inverse[of 255 "''00Ff''"] b v
  have 3: "\<exists>r. codec_roundtrip ''00Ff'' = Inr r \<and> hexValue r = 255" by simp
  from 1 2 3 a b show ?thesis by simp
qed

text \<open>
  Claim C5 (interleave and split).  For a token of at least \<open>\<lceil>n/2\<rceil>\<close> digits and a
  digest of at least \<open>\<lfloor>n/2\<rfloor>\<close> digits, the interleaved string has length \<open>n\<close> and
  carries \<open>t[i div 2]\<close> at every even position \<open>i\<close> and \<open>d[i div 2]\<close> at every odd one;
  splitting it gives the first \<open>\<lceil>n/2\<rceil>\<close> digits of the token and the first \<open>\<lfloor>n/2\<rfloor>\<close>
  digits of the digest.  Splitting any string \<open>s\<close> is total and lossless: its two parts
  have \<open>\<lceil>|s|/2\<rceil>\<close> and \<open>\<lfloor>|s|/2\<rfloor>\<close> characters and interleave back to \<open>s\<close>.
\<close>

theorem interleave_split_inverse:
  assumes "(n + 1) div 2 \<le> length t" and "n div 2 \<le> length d"
  shows "length (interleave t d n) = n \<and>
         (\<forall>i<n. interleave t d n ! i = (if even i then t ! (i div 2) else d ! (i div 2))) \<and>
         split_hexId (interleave t d n) = (take ((n + 1) div 2) t, take (n div 2) d) \<and>
         interleave (fst (split_hexId s)) (snd (split_hexId s)) (length s) = s \<and>
         length (fst (split_hexId s)) = (length s + 1) div 2 \<and>
         length (snd (split_hexId s)) = length s div 2"
proof (intro conjI)
  show "length (interleave t d n) = n" by (rule length_interleave[OF assms])
  show "\<forall>i<n. interleave t d n ! i = (if even i then t ! (i div 2) else d ! (i div 2))"
    by (simp add: interleave_in_range[OF assms] even_iff_mod_2_eq_zero)
  show "split_hexId (interleave t d n) = (take ((n + 1) div 2) t, take (n div 2) d)"
    by (rule split_interleave[OF assms])
  show "interleave (fst (split_hexId s)) (snd (split_hexId s)) (length s) = s"
    by (rule interleave_split)
  show "length (fst (split_hexId s)) = (length s + 1) div 2"
    and "length (snd (split_hexId s)) = length s div 2"
    by (simp_all add: length_split_hexId)
qed

theorem interleave_split_inverse_witness:
  "(7 + 1) div 2 \<le> length ''abcde'' \<and> 7 div 2 \<le> length ''0123'' \<and>
   interleave ''abcde'' ''0123'' 7 = ''a0b1c2d'' \<and>
   split_hexId (interleave ''abcde'' ''0123'' 7) = (''abcd'', ''012'') \<and>
   interleave (fst (split_hexId ''a0b1c2d'')) (snd (split_hexId ''a0b1c2d'')) (length ''a0b1c2d'') = ''a0b1c2d''"
proof -
  have a: "(7 + 1) div 2 \<le> length ''abcde''" and b: "7 div 2 \<le> length ''0123''" by simp_all
  have v: "interleave ''abcde'' ''0123'' 7 = ''a0b1c2d''"
    by (simp add: interleave_def interleave_loop.simps stringIndex_def)
  from interleave_split_inverse[OF a b, of "''a0b1c2d''"]
  have "split_hexId (interleave ''abcde'' ''0123'' 7) = (''abcd'', ''012'')"
    and "interleave (fst (split_hexId ''a0b1c2d'')) (snd (split_hexId ''a0b1c2d'')) (length ''a0b1c2d'') = ''a0b1c2d''"
    by simp_all
  with a b v show ?thesis by simp
qed

text \<open>
  Claim C6 (token length budget), as amended.  For every valid \<open>approximateLength\<close>, the
  token of a run of \<^verbatim>\<open>createId\<close> is the result of \<^verbatim>\<open>generateRandomHexToken\<close> asked for
  \<open>(hexLength + 1) div 2\<close> digits and has exactly that many: \<open>\<lceil>hexLength / 2\<rceil>\<close>, the
  number of even positions below \<open>hexLength\<close>, with no spare digit.  That is what the
  interleaving loop reads: every even position \<open>i < hexLength\<close> finds \<open>token[i div 2]\<close>.
\<close>

theorem token_length_budget:
  assumes "1 \<le> n" and "n \<le> 54"
    and "createId_run digest rng pos \<lparr>opt_approximateLength = Some n, opt_salt = so\<rparr> = Some (Inr st)"
  shows "(\<exists>pos'. generateRandomHexToken rng pos (nat ((hexLength_of st + 1) div 2))
                    = Some (hexToken_of st, pos')) \<and>
         int (length (hexToken_of st)) = (hexLength_of st + 1) div 2 \<and>
         (hexLength_of st + 1) div 2 = \<lceil>of_int (hexLength_of st) / (2::rat)\<rceil> \<and>
         (\<forall>i. 0 \<le> i \<and> i < hexLength_of st \<and> even i \<longrightarrow> nat (i div 2) < length (hexToken_of st))"
proof -
  from createId_run_Inr[OF assms] obtain tok pos' where
    t: "generateRandomHexToken rng pos (nat ((calculateHexLength n + 1) div 2)) = Some (tok, pos')"
    and h: "hexLength_of st = calculateHexLength n" and k: "hexToken_of st = tok"
    by blast
  from calculateHexLength_bounds(1)[OF assms(1,2)] have h1: "1 \<le> hexLength_of st" by (simp add: h)
  from generateRandomHexToken_post[OF t]
  have len: "length tok = nat ((calculateHexLength n + 1) div 2)" by simp
  have 1: "\<exists>pos'. generateRandomHexToken rng pos (nat ((hexLength_of st + 1) div 2)) = Some (hexToken_of st, pos')"
    using t by (auto simp: h k)
  have 2: "int (length (hexToken_of st)) = (hexLength_of st + 1) div 2"
    using h1 by (simp add: k len h)
  have 3: "(hexLength_of st + 1) div 2 = \<lceil>of_int (hexLength_of st) / (2::rat)\<rceil>"
    by (simp only: ceiling_half)
  have 4: "\<forall>i. 0 \<le> i \<and> i < hexLength_of st \<and> even i \<longrightarrow> nat (i div 2) < length (hexToken_of st)"
  proof (intro allI impI)
    fix i :: int
    assume "0 \<le> i \<and> i < hexLength_of st \<and> even i"
    then have "i div 2 < (hexLength_of st + 1) div 2" and "0 \<le> i div 2" by presburger+
    with 2 show "nat (i div 2) < length (hexToken_of st)" by linarith
  qed
  from 1 2 3 4 show ?thesis by (intro conjI)
qed

theorem token_length_budget_witness:
  "(1::int) \<le> 10 \<and> (10::int) \<le> 54 \<and>
   createId_run sample_digest sample_rng 0 \<lparr>opt_approximateLength = Some 10, opt_salt = None\<rparr>
     = Some (Inr \<lparr>hexLength_of = 14, hexToken_of = ''1f090a0'',
          hexHash_of = ''6c6567697469643a316630393061307878787878'',
          hexId_of = ''16fc069506a706''\<rparr>) \<and>
   int (length ''1f090a0'') = (14 + 1) div 2 \<and>
   (\<exists>pos'. generateRandomHexToken sample_rng 0 (nat ((14 + 1) div 2)) = Some (''1f090a0'', pos'))"
proof -
  have a: "(1::int) \<le> 10" and b: "(10::int) \<le> 54" by simp_all
  note r = createId_run_sample
  from token_length_budget[OF a b r] a b r show ?thesis by simp
qed

text \<open>
  The claim as stated asks for \<open>\<lceil>(hexLength + 1) / 2\<rceil>\<close> digits.  At
  \<open>approximateLength = 10\<close> the hex length is 14, the token has 7 digits, and
  \<open>\<lceil>15 / 2\<rceil> = 8\<close>.
\<close>

theorem token_length_counterexample:
  "createId_run sample_digest sample_rng 0 \<lparr>opt_approximateLength = Some 10, opt_salt = None\<rparr>
     = Some (Inr \<lparr>hexLength_of = 14, hexToken_of = ''1f090a0'',
          hexHash_of = ''6c6567697469643a316630393061307878787878'',
          hexId_of = ''16fc069506a706''\<rparr>) \<and>
   generateRandomHexToken sample_rng 0 7 = Some (''1f090a0'', 12) \<and>
   int (length ''1f090a0'') \<noteq> \<lceil>(14 + 1) / (2::rat)\<rceil>"
proof -
  note r = createId_run_sample
  note g = generateRandomHexToken_sample
  have c: "\<lceil>(14 + 1) / (2::rat)\<rceil> = 8"
    using ceiling_divide_eq_div[of 15 2, where ?'a = rat] by simp
  from r g c show ?thesis by simp
qed

text \<open>
  Claim C7 (rejection policy of verifyId).  In the first copy, the code the claim is
  about, the options parameter has no default: on a call that omits it the promise
  rejects with a \<^verbatim>\<open>TypeError\<close> before either guard is reached, for the empty id, for an
  id of 55 characters and for an id that decodes to a single hex digit alike.  The second
  copy returns \<open>false\<close> on the same calls, and the first does when an options object is
  passed.
\<close>

theorem verifyId_guards_without_options:
  "verifyId sample_digest [] None = Inl TypeError \<and>
   verifyId sample_digest (replicate 55 CHR ''a'') None = Inl TypeError \<and>
   verifyId sample_digest ''b'' None = Inl TypeError \<and>
   verifyId_legid sample_digest [] None = Inr False \<and>
   verifyId_legid sample_digest (replicate 55 CHR ''a'') None = Inr False \<and>
   verifyId_legid sample_digest ''b'' None = Inr False \<and>
   verifyId sample_digest [] (Some \<lparr>vopt_salt = None\<rparr>) = Inr False \<and>
   verifyId sample_digest (replicate 55 CHR ''a'') (Some \<lparr>vopt_salt = None\<rparr>) = Inr False \<and>
   verifyId sample_digest ''b'' (Some \<lparr>vopt_salt = None\<rparr>) = Inr False"
proof -
  have long: "54 < length (replicate 55 CHR ''a'')" by simp
  have b: "customAlphabetToHex ''b'' = Inr ''1''" by code_simp
  have c: "snd (split_hexId ''1'') = []" by code_simp
  have 1: "verifyId sample_digest [] (Some \<lparr>vopt_salt = None\<rparr>) = Inr False"
    and 2: "verifyId_legid sample_digest [] None = Inr False"
    using verifyId_rejection_policy[where idStr = "[]" and digest = sample_digest
      and given = "\<lparr>vopt_salt = None\<rparr>" and opts = None]
    by simp_all
  have 3: "verifyId sample_digest (replicate 55 CHR ''a'') (Some \<lparr>vopt_salt = None\<rparr>) = Inr False"
    and 4: "verifyId_legid sample_digest (replicate 55 CHR ''a'') None = Inr False"
    using verifyId_rejection_policy[where idStr = "replicate 55 CHR ''a''" and digest = sample_digest
      and given = "\<lparr>vopt_salt = None\<rparr>" and opts = None] long
    by blast+
  have 5: "verifyId sample_digest ''b'' (Some \<lparr>vopt_salt = None\<rparr>) = Inr False"
    and 6: "verifyId_legid sample_digest ''b'' None = Inr False"
    using verifyId_rejection_policy[where idStr = "''b''" and hexId = "''1''" and digest = sample_digest
      and given = "\<lparr>vopt_salt = None\<rparr>" and opts = None] b c
    by blast+
  have 7: "verifyId sample_digest [] None = Inl TypeError"
    and 8: "verifyId sample_digest (replicate 55 CHR ''a'') None = Inl TypeError"
    and 9: "verifyId sample_digest ''b'' None = Inl TypeError"
    by (rule verifyId_omitted_options)+
  from 1 2 3 4 5 6 7 8 9 show ?thesis by (intro conjI)
qed

text \<open>
  Claim C8 (hex length budget).  For every \<open>approximateLength\<close> in \<open>[1, 54]\<close>, the
  double-precision computation \<^verbatim>\<open>Math.floor(approximateLength * 1.48855)\<close> equals the
  floor of the exact product \<open>approximateLength \<times> 1.48855\<close>, and that is the hex length of
  a run of \<^verbatim>\<open>createId\<close>; the constant lies within \<open>0.0002\<close> of \<open>log 62 / log 16\<close>.
\<close>

theorem hex_length_budget:
  assumes "1 \<le> n" and "n \<le> 54"
  shows "calculateHexLength n = \<lfloor>of_int n * (148855 / 100000 :: rat)\<rfloor> \<and>
         (createId_run digest rng pos \<lparr>opt_approximateLength = Some n, opt_salt = so\<rparr> = Some (Inr st)
            \<longrightarrow> hexLength_of st = \<lfloor>of_int n * (148855 / 100000 :: rat)\<rfloor>) \<and>
         \<bar>148855 / 100000 - log 16 62\<bar> < (2 / 10000 :: real)"
proof (intro conjI impI)
  show e: "calculateHexLength n = \<lfloor>of_int n * (148855 / 100000 :: rat)\<rfloor>"
    by (simp only: calculateHexLength_exact[OF assms] floor_ratio)
  show "\<bar>148855 / 100000 - log 16 62\<bar> < (2 / 10000 :: real)" by (rule ratio_near_log)
  assume r: "createId_run digest rng pos \<lparr>opt_approximateLength = Some n, opt_salt = so\<rparr> = Some (Inr st)"
  show "hexLength_of st = \<lfloor>of_int n * (148855 / 100000 :: rat)\<rfloor>"
  proof (cases "generateRandomHexToken rng pos (nat ((calculateHexLength n + 1) div 2))")
    case None
    from createId_run_diverges[OF assms None] r show ?thesis by simp
  next
    case (Some a)
    then obtain tok pos' where
      "generateRandomHexToken rng pos (nat ((calculateHexLength n + 1) div 2)) = Some (tok, pos')"
      by (cases a) simp
    from createId_run_valid[OF assms this, of digest so] r
    have "hexLength_of st = calculateHexLength n" by auto
    with e show ?thesis by simp
  qed
qed

theorem hex_length_budget_witness:
  "(1::int) \<le> 10 \<and> (10::int) \<le> 54 \<and> calculateHexLength 10 = 14 \<and> \<lfloor>of_int 10 * (148855 / 100000 :: rat)\<rfloor> = 14 \<and>
   createId_run sample_digest sample_rng 0 \<lparr>opt_approximateLength = Some 10, opt_salt = None\<rparr>
     = Some (Inr \<lparr>hexLength_of = 14, hexToken_of = ''1f090a0'',
          hexHash_of = ''6c6567697469643a316630393061307878787878'',
          hexId_of = ''16fc069506a706''\<rparr>)"
proof -
  have a: "(1::int) \<le> 10" and b: "(10::int) \<le> 54" by simp_all
  have f: "\<lfloor>of_int 10 * (148855 / 100000 :: rat)\<rfloor> = 14" by (simp add: floor_rat_numeral)
  note r = createId_run_sample
  from hex_length_budget[OF a b, of sample_digest sample_rng 0 None] f r
  show ?thesis by simp
qed

text \<open>
  Claim C9 (postcondition of the entropy source).  For \<open>hexDigitCount \<ge> 1\<close>: whenever
  \<^verbatim>\<open>generateRandomHexToken\<close> returns, its result has exactly \<open>hexDigitCount\<close> characters,
  all lowercase hexadecimal digits, the first of them not \<open>0\<close>; and it returns exactly
  when some buffer drawn from the source starts with a byte of at least 16.
\<close>

theorem entropy_postcondition:
  assumes "0 < len"
  shows "(generateRandomHexToken rng pos len = Some (tok, pos') \<longrightarrow>
            length tok = len \<and> isLowerHexString tok \<and> hd tok \<noteq> CHR ''0'') \<and>
         ((\<exists>k. 16 \<le> rng (pos + k * ((len + 1) div 2))) \<longleftrightarrow>
            (\<exists>tok' pos''. generateRandomHexToken rng pos len = Some (tok', pos'')))"
proof (rule conjI)
  show "generateRandomHexToken rng pos len = Some (tok, pos') \<longrightarrow>
          length tok = len \<and> isLowerHexString tok \<and> hd tok \<noteq> CHR ''0''"
  proof
    assume r: "generateRandomHexToken rng pos len = Some (tok, pos')"
    from generateRandomHexToken_post[OF r] assms
    show "length tok = len \<and> isLowerHexString tok \<and> hd tok \<noteq> CHR ''0''" by simp
  qed
  show "(\<exists>k. 16 \<le> rng (pos + k * ((len + 1) div 2))) \<longleftrightarrow>
          (\<exists>tok' pos''. generateRandomHexToken rng pos len = Some (tok', pos''))"
  proof
    assume "\<exists>k. 16 \<le> rng (pos + k * ((len + 1) div 2))"
    then obtain k where "16 \<le> rng (pos + k * ((len + 1) div 2))" ..
    then show "\<exists>tok' pos''. generateRandomHexToken rng pos len = Some (tok', pos'')"
      using generateRandomHexToken_terminates[OF assms, of rng pos k] by simp
  next
    assume "\<exists>tok' pos''. generateRandomHexToken rng pos len = Some (tok', pos'')"
    then obtain tok' pos'' where "generateRandomHexToken rng pos len = Some (tok', pos'')" by blast
    then show "\<exists>k. 16 \<le> rng (pos + k * ((len + 1) div 2))"
      by (rule generateRandomHexToken_returns_only_if[OF assms])
  qed
qed

theorem entropy_postcondition_witness:
  "(0::nat) < 7 \<and> generateRandomHexToken sample_rng 0 7 = Some (''1f090a0'', 12) \<and>
   length ''1f090a0'' = 7 \<and> isLowerHexString ''1f090a0'' \<and> hd ''1f090a0'' \<noteq> CHR ''0'' \<and>
   (\<exists>k. 16 \<le> sample_rng (0 + k * ((7 + 1) div 2)))"
proof -
  note r = generateRandomHexToken_sample
  have p: "(0::nat) < 7" by simp
  from entropy_postcondition[OF p, of sample_rng 0 "''1f090a0''" 12] r
  have "length ''1f090a0'' = 7 \<and> isLowerHexString ''1f090a0'' \<and> hd ''1f090a0'' \<noteq> CHR ''0''"
    and "\<exists>k. 16 \<le> sample_rng (0 + k * ((7 + 1) div 2))"
    by blast+
  with r show ?thesis by simp
qed

text \<open>
  Claim C10 (canonical form of the codec round trip).  For every non-empty hexadecimal
  string \<open>h\<close> the encoding is non-empty, and decoding it gives \<open>h\<close>, its digits in
  lowercase, with its leading \<open>0\<close> digits removed, or the single digit \<open>0\<close> when \<open>h\<close>
  consists of zero digits only.  For \<open>h\<close> in lowercase, the form in which the program
  writes hexadecimal, that is \<open>h\<close> itself with its leading zeros removed.  The zero value
  is encoded as the first symbol of the alphabet.
\<close>

theorem codec_canonical_form:
  assumes "isHexString h" and "h \<noteq> []"
  shows "\<exists>s. hexToCustomAlphabet h = Inr s \<and> s \<noteq> [] \<and>
           customAlphabetToHex s = Inr (stripLeadingZeros (map lowerHexDigit h)) \<and>
           (isLowerHexString h \<longrightarrow> customAlphabetToHex s = Inr (stripLeadingZeros h)) \<and>
           (hexValue h = 0 \<longrightarrow> s = [ALPHABET ! 0] \<and> stripLeadingZeros (map lowerHexDigit h) = ''0'')"
proof -
  note hex = assms(1)
  let ?s = "hexToCustomAlphabet_loop (hexValue h) []"
  have 1: "hexToCustomAlphabet h = Inr ?s" by (rule hexToCustomAlphabet_hex[OF hex assms(2)])
  have 2: "?s \<noteq> []" by (rule encode_nonempty)
  have 3: "customAlphabetToHex ?s = Inr (stripLeadingZeros (map lowerHexDigit h))"
    by (simp add: customAlphabetToHex_encode toString16_hexValue_any_case[OF assms])
  have 4: "?s = [ALPHABET ! 0] \<and> stripLeadingZeros (map lowerHexDigit h) = ''0''" if z: "hexValue h = 0"
  proof -
    have "toString16 0 = ''0''" by (simp add: toString16_digit hexDigit_def)
    with z toString16_hexValue_any_case[OF assms]
    have "stripLeadingZeros (map lowerHexDigit h) = ''0''" by simp
    with z show ?thesis by (simp add: encode_zero)
  qed
  show ?thesis
  proof (intro exI[of _ ?s] conjI impI)
    show "hexToCustomAlphabet h = Inr ?s" by (rule 1)
    show "?s \<noteq> []" by (rule 2)
    show "customAlphabetToHex ?s = Inr (stripLeadingZeros (map lowerHexDigit h))" by (rule 3)
    show "customAlphabetToHex ?s = Inr (stripLeadingZeros h)" if "isLowerHexString h"
      using 3 map_lowerHexDigit_id[OF that] by simp
    show "?s = [ALPHABET ! 0]" if "hexValue h = 0" using 4[OF that] by simp
    show "stripLeadingZeros (map lowerHexDigit h) = ''0''" if "hexValue h = 0" using 4[OF that] by simp
  qed
qed

theorem codec_canonical_form_witness:
  "isHexString ''000'' \<and> isLowerHexString ''000'' \<and> ''000'' \<noteq> [] \<and> hexValue ''000'' = 0 \<and>
   hexToCustomAlphabet ''000'' = Inr ''a'' \<and> customAlphabetToHex ''a'' = Inr ''0'' \<and>
   stripLeadingZeros ''000'' = ''0''"
proof -
  have a: "isLowerHexString ''000''" by (simp add: isLowerHexString_def isLowerHexDigit_def)
  have b: "isHexString ''000''" by (simp add: isHexString_def hexDigitValue_def)
  have v: "hexValue ''000'' = 0" by (simp add: hexValue_def hexDigitValue_def)
  have al: "[ALPHABET ! 0] = ''a''" by (simp add: ALPHABET_def)
  have st: "stripLeadingZeros ''000'' = ''0''" by (simp add: stripLeadingZeros_def)
  from codec_canonical_form[OF b] a v al st show ?thesis
    using b by auto
qed

end
